theory Spec2Isabelle
  imports Complex_Main "HOL-Library.Sublist"
begin

section \<open>String primitives of the host language\<close>

text \<open>
  Source strings are modelled as \<open>string\<close> (a list of characters). The three
  primitives below follow the semantics of \<^verbatim>\<open>String.prototype.indexOf\<close>,
  \<^verbatim>\<open>includes\<close> and \<^verbatim>\<open>substring\<close>/\<^verbatim>\<open>slice\<close> for
  non-negative arguments; the source's \<^verbatim>\<open>-1\<close> for "not found" is \<open>None\<close>.
\<close>

fun indexOf_aux :: "string \<Rightarrow> string \<Rightarrow> nat \<Rightarrow> nat option" where
  "indexOf_aux [] p i = (if p = [] then Some i else None)"
| "indexOf_aux (c # cs) p i =
     (if prefix p (c # cs) then Some i else indexOf_aux cs p (Suc i))"

definition indexOf :: "string \<Rightarrow> string \<Rightarrow> nat \<Rightarrow> nat option" where
  "indexOf s p from = indexOf_aux (drop from s) p (min from (length s))"

definition str_includes :: "string \<Rightarrow> string \<Rightarrow> bool" where
  "str_includes s p = (indexOf s p 0 \<noteq> None)"

definition substring :: "string \<Rightarrow> nat \<Rightarrow> nat \<Rightarrow> string" where
  "substring s a b = take (b - a) (drop a s)"

section \<open>Facts about the string primitives\<close>

lemma indexOf_aux_None_iff: "indexOf_aux s p i = None \<longleftrightarrow> \<not> sublist p s"
  by (induction s arbitrary: i) (auto simp: sublist_Cons_right)

lemma includes_iff_sublist: "str_includes s p \<longleftrightarrow> sublist p s"
  by (simp add: str_includes_def indexOf_def indexOf_aux_None_iff)

section \<open>Retry decision engine (retry.ts)\<close>

datatype Strategy = Reduce | Backoff | NoRetry

record RetryDecision =
  shouldRetry :: bool
  delayMs :: nat
  strategy :: Strategy

definition exponentialBackoff :: "nat \<Rightarrow> nat \<Rightarrow> nat \<Rightarrow> nat" where
  "exponentialBackoff attempt baseMs maxMs = min (baseMs * 2 ^ attempt) maxMs"

definition TOO_BIG_PATTERNS :: "string list" where
  "TOO_BIG_PATTERNS =
     [''CONTENT_LENGTH_EXCEEDS_THRESHOLD'', ''Input is too long'', ''Improperly formed'']"

definition decideRetry :: "int \<Rightarrow> string \<Rightarrow> nat \<Rightarrow> nat \<Rightarrow> RetryDecision" where
  "decideRetry status errorText attempt maxRetries =
     (if attempt \<ge> maxRetries then \<lparr>shouldRetry = False, delayMs = 0, strategy = NoRetry\<rparr>
      else if status = 413 \<or> (status = 400 \<and> list_ex (\<lambda>p. str_includes errorText p) TOO_BIG_PATTERNS)
        then \<lparr>shouldRetry = True, delayMs = 0, strategy = Reduce\<rparr>
      else if status = 429
        then \<lparr>shouldRetry = True, delayMs = exponentialBackoff attempt 1000 30000, strategy = Backoff\<rparr>
      else if status \<ge> 500 \<and> status < 600
        then \<lparr>shouldRetry = True, delayMs = exponentialBackoff attempt 1000 30000, strategy = Backoff\<rparr>
      else if status = 403
        then \<lparr>shouldRetry = True, delayMs = exponentialBackoff attempt 500 30000, strategy = Backoff\<rparr>
      else \<lparr>shouldRetry = False, delayMs = 0, strategy = NoRetry\<rparr>)"

section \<open>The retry decision table\<close>

text \<open>
  The size phrases that turn a 400 into a size-limit error, as the specification lists
  them, with "contains" read as: the phrase occurs as a contiguous part of the error text.
\<close>

definition size_phrase :: "string \<Rightarrow> bool" where
  "size_phrase errorText \<longleftrightarrow>
     sublist ''CONTENT_LENGTH_EXCEEDS_THRESHOLD'' errorText
     \<or> sublist ''Input is too long'' errorText
     \<or> sublist ''Improperly formed'' errorText"

text \<open>
  Claim C6. \<open>decideRetry\<close> is a total function of its four arguments and agrees with
  the decision table on every status, error text and attempt index: an exhausted budget
  (\<open>attempt \<ge> maxRetries\<close>) gives no retry; otherwise 413, or 400 with a size phrase,
  gives \<open>Reduce\<close> with delay 0; 429 and every 5xx give \<open>Backoff\<close> with delay
  \<open>min (1000 * 2 ^ attempt) 30000\<close>; 403 gives \<open>Backoff\<close> with delay
  \<open>min (500 * 2 ^ attempt) 30000\<close>; every other status gives no retry.
\<close>

theorem decideRetry_table:
  "decideRetry status errorText attempt maxRetries =
     (if attempt \<ge> maxRetries
        then \<lparr>shouldRetry = False, delayMs = 0, strategy = NoRetry\<rparr>
      else if status = 413 \<or> (status = 400 \<and> size_phrase errorText)
        then \<lparr>shouldRetry = True, delayMs = 0, strategy = Reduce\<rparr>
      else if status = 429 \<or> (500 \<le> status \<and> status < 600)
        then \<lparr>shouldRetry = True, delayMs = min (1000 * 2 ^ attempt) 30000, strategy = Backoff\<rparr>
      else if status = 403
        then \<lparr>shouldRetry = True, delayMs = min (500 * 2 ^ attempt) 30000, strategy = Backoff\<rparr>
      else \<lparr>shouldRetry = False, delayMs = 0, strategy = NoRetry\<rparr>)"
  by (simp add: decideRetry_def exponentialBackoff_def TOO_BIG_PATTERNS_def
      size_phrase_def includes_iff_sublist)

theorem decideRetry_table_witness:
  "decideRetry 400 ''Input is too long for model'' 2 3
     = \<lparr>shouldRetry = True, delayMs = 0, strategy = Reduce\<rparr>
   \<and> decideRetry 429 ''Rate limited'' 2 3
     = \<lparr>shouldRetry = True, delayMs = 4000, strategy = Backoff\<rparr>
   \<and> decideRetry 403 [] 10 11
     = \<lparr>shouldRetry = True, delayMs = 30000, strategy = Backoff\<rparr>
   \<and> decideRetry 429 ''Rate limited'' 3 3
     = \<lparr>shouldRetry = False, delayMs = 0, strategy = NoRetry\<rparr>"
  using decideRetry_table [of 400 "''Input is too long for model''" 2 3]
    decideRetry_table [of 429 "''Rate limited''" 2 3]
    decideRetry_table [of 403 "[]" 10 11]
    decideRetry_table [of 429 "''Rate limited''" 3 3]
  by (simp add: size_phrase_def sublist_code)

section \<open>JSON values\<close>

text \<open>
  The values \<^verbatim>\<open>JSON.parse\<close> produces. An object is the list of its own
  properties; reading a property that is absent gives \<open>None\<close> (the source's
  \<^verbatim>\<open>undefined\<close>). \<^verbatim>\<open>JSON.parse\<close> and \<^verbatim>\<open>JSON.stringify\<close>
  belong to the host language, not to this program, and are parameters of the functions
  that call them: \<open>parse\<close> returns \<open>None\<close> where \<^verbatim>\<open>JSON.parse\<close> throws.
\<close>

datatype json =
    JNull
  | JBool bool
  | JNumber rat
  | JString string
  | JArray "json list"
  | JObject "(string \<times> json) list"

datatype js_error = TypeError

fun truthy :: "json option \<Rightarrow> bool" where
  "truthy None = False"
| "truthy (Some JNull) = False"
| "truthy (Some (JBool b)) = b"
| "truthy (Some (JNumber n)) = (n \<noteq> 0)"
| "truthy (Some (JString s)) = (s \<noteq> [])"
| "truthy (Some (JArray xs)) = True"
| "truthy (Some (JObject fs)) = True"

section \<open>Event classifier (event-parser.ts, parseKiroEvent)\<close>

text \<open>
  The classifier casts the payloads it finds (\<^verbatim>\<open>parsed.content as string\<close>)
  without checking them, so an event carries the JSON value that was in the object.
  Reading a property of \<^verbatim>\<open>null\<close> throws; that is the only way the classifier fails.
\<close>

datatype KiroStreamEvent =
    Content json
  | ToolUse (tu_name: json) (tu_toolUseId: json) (tu_input: string) (tu_stop: "json option")
  | ToolUseInput string
  | ToolUseStop json
  | ContextUsage json
  | FollowupPrompt json
  | Usage "json option" "json option"

definition toolUse_input :: "(json \<Rightarrow> string) \<Rightarrow> json option \<Rightarrow> string" where
  "toolUse_input stringify input =
     (case input of
        Some (JString s) \<Rightarrow> s
      | Some (JObject fs) \<Rightarrow> if length fs > 0 then stringify (JObject fs) else []
      | Some (JArray xs) \<Rightarrow> if length xs > 0 then stringify (JArray xs) else []
      | _ \<Rightarrow> [])"

definition toolUseInput_input :: "(json \<Rightarrow> string) \<Rightarrow> json \<Rightarrow> string" where
  "toolUseInput_input stringify input =
     (case input of JString s \<Rightarrow> s | _ \<Rightarrow> stringify input)"

definition usage_event :: "json \<Rightarrow> js_error + KiroStreamEvent option" where
  "usage_event u =
     (case u of
        JNull \<Rightarrow> Inl TypeError
      | JObject fs \<Rightarrow> Inr (Some (Usage (map_of fs ''inputTokens'') (map_of fs ''outputTokens'')))
      | _ \<Rightarrow> Inr (Some (Usage None None)))"

definition parseKiroEvent ::
  "(json \<Rightarrow> string) \<Rightarrow> (string \<times> json) list \<Rightarrow> js_error + KiroStreamEvent option" where
  "parseKiroEvent stringify parsed =
     (let content = map_of parsed ''content'';
          name = map_of parsed ''name'';
          toolUseId = map_of parsed ''toolUseId'';
          input = map_of parsed ''input'';
          stop = map_of parsed ''stop'';
          contextUsagePercentage = map_of parsed ''contextUsagePercentage'';
          followupPrompt = map_of parsed ''followupPrompt'';
          usage = map_of parsed ''usage''
      in if content \<noteq> None then Inr (Some (Content (the content)))
         else if truthy name \<and> truthy toolUseId
           then Inr (Some (ToolUse (the name) (the toolUseId) (toolUse_input stringify input) stop))
         else if input \<noteq> None \<and> \<not> truthy name
           then Inr (Some (ToolUseInput (toolUseInput_input stringify (the input))))
         else if stop \<noteq> None \<and> contextUsagePercentage = None
           then Inr (Some (ToolUseStop (the stop)))
         else if contextUsagePercentage \<noteq> None
           then Inr (Some (ContextUsage (the contextUsagePercentage)))
         else if followupPrompt \<noteq> None
           then Inr (Some (FollowupPrompt (the followupPrompt)))
         else if usage \<noteq> None then usage_event (the usage)
         else Inr None)"

section \<open>The classifier's precedence\<close>

text \<open>
  \<^verbatim>\<open>JSON.stringify\<close> on the values the examples of this development use; the
  examples do not depend on its value elsewhere.
\<close>

definition sample_stringify :: "json \<Rightarrow> string" where
  "sample_stringify v =
     (if v = JObject [] then ''{}''
      else if v = JObject [(''cmd'', JString ''ls'')]
        then CHR ''{'' # CHR 0x22 # ''cmd'' @ [CHR 0x22, CHR '':'', CHR 0x22] @ ''ls'' @ [CHR 0x22, CHR ''}'']
      else ''null'')"







section \<open>Frame scanner (event-parser.ts, findJsonEnd and parseKiroEvents)\<close>

fun findJsonEnd_loop :: "string \<Rightarrow> nat \<Rightarrow> int \<Rightarrow> bool \<Rightarrow> bool \<Rightarrow> nat option" where
  "findJsonEnd_loop [] i braceCount inString escapeNext = None"
| "findJsonEnd_loop (char # rest) i braceCount inString escapeNext =
     (if escapeNext then findJsonEnd_loop rest (Suc i) braceCount inString False
      else if char = CHR 0x5C then findJsonEnd_loop rest (Suc i) braceCount inString True
      else if char = CHR 0x22 then findJsonEnd_loop rest (Suc i) braceCount (\<not> inString) False
      else if \<not> inString then
        (if char = CHR ''{'' then findJsonEnd_loop rest (Suc i) (braceCount + 1) inString False
         else if char = CHR ''}'' then
           (if braceCount - 1 = 0 then Some i
            else findJsonEnd_loop rest (Suc i) (braceCount - 1) inString False)
         else findJsonEnd_loop rest (Suc i) braceCount inString False)
      else findJsonEnd_loop rest (Suc i) braceCount inString False)"

definition findJsonEnd :: "string \<Rightarrow> nat \<Rightarrow> nat option" where
  "findJsonEnd text start = findJsonEnd_loop (drop start text) start 0 False False"

definition EVENT_PATTERNS :: "string list" where
  "EVENT_PATTERNS =
     [CHR ''{'' # CHR 0x22 # ''content'' @ [CHR 0x22, CHR '':''],
      CHR ''{'' # CHR 0x22 # ''name'' @ [CHR 0x22, CHR '':''],
      CHR ''{'' # CHR 0x22 # ''input'' @ [CHR 0x22, CHR '':''],
      CHR ''{'' # CHR 0x22 # ''stop'' @ [CHR 0x22, CHR '':''],
      CHR ''{'' # CHR 0x22 # ''contextUsagePercentage'' @ [CHR 0x22, CHR '':''],
      CHR ''{'' # CHR 0x22 # ''followupPrompt'' @ [CHR 0x22, CHR '':''],
      CHR ''{'' # CHR 0x22 # ''usage'' @ [CHR 0x22, CHR '':''],
      CHR ''{'' # CHR 0x22 # ''toolUseId'' @ [CHR 0x22, CHR '':''],
      CHR ''{'' # CHR 0x22 # ''unit'' @ [CHR 0x22, CHR '':'']]"

definition earlier :: "nat option \<Rightarrow> nat option \<Rightarrow> nat option" where
  "earlier earliest idx =
     (case idx of
        None \<Rightarrow> earliest
      | Some i \<Rightarrow> (case earliest of None \<Rightarrow> Some i
                   | Some e \<Rightarrow> if i < e then Some i else Some e))"

definition findNextEventStart :: "string \<Rightarrow> nat \<Rightarrow> nat option" where
  "findNextEventStart buffer from =
     foldl (\<lambda>earliest pattern. earlier earliest (indexOf buffer pattern from)) None EVENT_PATTERNS"

section \<open>The frame scanner's loop\<close>

lemma indexOf_aux_Some:
  "indexOf_aux s p i = Some k \<Longrightarrow>
     i \<le> k \<and> k \<le> i + length s \<and> prefix p (drop (k - i) s) \<and> (\<forall>j < k - i. \<not> prefix p (drop j s))"
proof (induction s arbitrary: i)
  case Nil
  then show ?case by (auto split: if_splits)
next
  case (Cons c cs)
  show ?case
  proof (cases "prefix p (c # cs)")
    case True
    with Cons.prems show ?thesis by simp
  next
    case False
    with Cons.prems have r: "indexOf_aux cs p (Suc i) = Some k" by simp
    from Cons.IH [OF r] have ih: "Suc i \<le> k" "k \<le> Suc i + length cs"
      "prefix p (drop (k - Suc i) cs)" "\<forall>j < k - Suc i. \<not> prefix p (drop j cs)" by auto
    have "k - i = Suc (k - Suc i)" using ih(1) by arith
    moreover have "\<forall>j < k - i. \<not> prefix p (drop j (c # cs))"
    proof (intro allI impI)
      fix j assume "j < k - i"
      show "\<not> prefix p (drop j (c # cs))"
      proof (cases j)
        case 0 then show ?thesis using False by simp
      next
        case (Suc j')
        then have "j' < k - Suc i" using \<open>j < k - i\<close> by arith
        then show ?thesis using ih(4) Suc by simp
      qed
    qed
    ultimately show ?thesis using ih by auto
  qed
qed

lemma indexOf_aux_None: "indexOf_aux s p i = None \<Longrightarrow> \<not> prefix p (drop j s)"
proof (induction s arbitrary: i j)
  case Nil
  then show ?case by (auto split: if_splits)
next
  case (Cons c cs)
  then show ?case by (cases j) (auto split: if_splits)
qed

lemma indexOf_Some:
  assumes "indexOf s p from = Some k" and "from \<le> length s"
  shows "from \<le> k \<and> k \<le> length s \<and> prefix p (drop k s)
         \<and> (\<forall>j. from \<le> j \<and> j < k \<longrightarrow> \<not> prefix p (drop j s))"
proof -
  from assms have a: "indexOf_aux (drop from s) p from = Some k"
    by (simp add: indexOf_def min_def)
  note b = indexOf_aux_Some [OF a]
  from b have k: "from \<le> k" "k \<le> length s" using assms(2) by auto
  then have e: "k - from + from = k" by simp
  from b have "prefix p (drop (k - from) (drop from s))" by blast
  then have pk: "prefix p (drop k s)" unfolding drop_drop e .
  have "\<not> prefix p (drop j s)" if "from \<le> j" "j < k" for j
  proof -
    from that have "j - from < k - from" and e': "j - from + from = j" by arith+
    with b have "\<not> prefix p (drop (j - from) (drop from s))" by blast
    then show ?thesis unfolding drop_drop e' .
  qed
  with k pk show ?thesis by blast
qed

lemma indexOf_None:
  assumes "indexOf s p from = None" and "from \<le> j"
  shows "\<not> prefix p (drop j s)"
proof -
  from assms have "indexOf_aux (drop from s) p (min from (length s)) = None"
    by (simp add: indexOf_def)
  then have "\<not> prefix p (drop (j - from) (drop from s))" by (rule indexOf_aux_None)
  moreover have "j - from + from = j" using assms(2) by simp
  ultimately show ?thesis unfolding drop_drop by simp
qed

text \<open>
  A position is an anchor when one of the whitelisted key prefixes starts there; the
  first anchor from \<open>pos\<close> on is what \<^verbatim>\<open>findNextEventStart\<close> looks for.
\<close>

definition is_anchor :: "string \<Rightarrow> nat \<Rightarrow> bool" where
  "is_anchor buffer j \<longleftrightarrow> (\<exists>p \<in> set EVENT_PATTERNS. prefix p (drop j buffer))"

definition first_anchor :: "string \<Rightarrow> nat \<Rightarrow> nat \<Rightarrow> bool" where
  "first_anchor buffer pos a \<longleftrightarrow>
     pos \<le> a \<and> is_anchor buffer a \<and> (\<forall>j. pos \<le> j \<and> j < a \<longrightarrow> \<not> is_anchor buffer j)"

lemma fold_earlier_None:
  "foldl (\<lambda>earliest pattern. earlier earliest (indexOf buffer pattern from)) acc ps = None
   \<longleftrightarrow> acc = None \<and> (\<forall>p \<in> set ps. indexOf buffer p from = None)"
  by (induction ps arbitrary: acc) (auto simp: earlier_def split: option.splits)

lemma fold_earlier_Some:
  "foldl (\<lambda>earliest pattern. earlier earliest (indexOf buffer pattern from)) acc ps = Some a
   \<Longrightarrow> (acc = Some a \<or> (\<exists>p \<in> set ps. indexOf buffer p from = Some a))
       \<and> (\<forall>e. acc = Some e \<longrightarrow> a \<le> e)
       \<and> (\<forall>p \<in> set ps. \<forall>k. indexOf buffer p from = Some k \<longrightarrow> a \<le> k)"
proof (induction ps arbitrary: acc)
  case Nil
  then show ?case by simp
next
  case (Cons p ps)
  from Cons.prems have
    "foldl (\<lambda>earliest pattern. earlier earliest (indexOf buffer pattern from))
       (earlier acc (indexOf buffer p from)) ps = Some a" by simp
  from Cons.IH [OF this] show ?case
    by (auto simp: earlier_def split: option.splits if_splits)
qed

lemma findNextEventStart_Some:
  assumes "findNextEventStart buffer pos = Some a" and "pos \<le> length buffer"
  shows "first_anchor buffer pos a"
proof -
  note f = fold_earlier_Some [OF assms(1) [unfolded findNextEventStart_def]]
  from f obtain p where p: "p \<in> set EVENT_PATTERNS" "indexOf buffer p pos = Some a" by auto
  from indexOf_Some [OF p(2) assms(2)] have a: "pos \<le> a" "prefix p (drop a buffer)" by auto
  have "\<not> is_anchor buffer j" if j: "pos \<le> j" "j < a" for j
  proof
    assume "is_anchor buffer j"
    then obtain q where q: "q \<in> set EVENT_PATTERNS" "prefix q (drop j buffer)"
      by (auto simp: is_anchor_def)
    show False
    proof (cases "indexOf buffer q pos")
      case None
      from indexOf_None [OF None j(1)] q(2) show False by simp
    next
      case (Some k)
      with f q(1) have "a \<le> k" by blast
      with indexOf_Some [OF Some assms(2)] j q(2) show False by auto
    qed
  qed
  with a p(1) show ?thesis by (auto simp: first_anchor_def is_anchor_def)
qed

lemma findNextEventStart_None:
  assumes "findNextEventStart buffer pos = None" and "pos \<le> j"
  shows "\<not> is_anchor buffer j"
  using assms indexOf_None
  by (auto simp: findNextEventStart_def fold_earlier_None is_anchor_def)

lemma findJsonEnd_loop_bounds:
  "findJsonEnd_loop s i b q e = Some k \<Longrightarrow> i \<le> k \<and> k < i + length s"
proof (induction s arbitrary: i b q e)
  case Nil
  then show ?case by simp
next
  case (Cons c cs)
  from Cons.prems show ?case
    by (auto split: if_splits dest!: Cons.IH)
qed

lemma findJsonEnd_bounds:
  "findJsonEnd text start = Some k \<Longrightarrow> start \<le> k \<and> k < length text"
  by (auto simp: findJsonEnd_def dest!: findJsonEnd_loop_bounds)

lemma scan_advance:
  assumes "pos < length buffer" and "findNextEventStart buffer pos = Some jsonStart"
    and "findJsonEnd buffer jsonStart = Some jsonEnd"
  shows "length buffer - Suc jsonEnd < length buffer - pos"
proof -
  from assms have "pos \<le> jsonStart" "jsonStart \<le> jsonEnd" "jsonEnd < length buffer"
    using findNextEventStart_Some [of buffer pos jsonStart]
      findJsonEnd_bounds [of buffer jsonStart jsonEnd]
    by (auto simp: first_anchor_def)
  then show ?thesis by arith
qed

text \<open>
  The loop of \<^verbatim>\<open>parseKiroEvents\<close>, with the position and the events collected so
  far as arguments. The fragment is handed to \<^verbatim>\<open>JSON.parse\<close> and the classifier
  inside the source's \<^verbatim>\<open>try\<close>: a parse failure, a classifier failure and an
  unrecognised shape all add no event, and a parsed value that is not an object has none
  of the properties the classifier reads. Every round moves the position past the
  fragment it found, which is why the loop ends.
\<close>

function parseKiroEvents_loop ::
  "(string \<Rightarrow> json option) \<Rightarrow> (json \<Rightarrow> string) \<Rightarrow> string \<Rightarrow> nat \<Rightarrow> KiroStreamEvent list
     \<Rightarrow> KiroStreamEvent list \<times> string" where
  "parseKiroEvents_loop parse stringify buffer pos events =
     (if pos < length buffer then
        (case findNextEventStart buffer pos of
           None \<Rightarrow> (events, [])
         | Some jsonStart \<Rightarrow>
             (case findJsonEnd buffer jsonStart of
                None \<Rightarrow> (events, drop jsonStart buffer)
              | Some jsonEnd \<Rightarrow>
                  parseKiroEvents_loop parse stringify buffer (jsonEnd + 1)
                    (case parse (substring buffer jsonStart (jsonEnd + 1)) of
                       Some (JObject parsed) \<Rightarrow>
                         (case parseKiroEvent stringify parsed of
                            Inr (Some event) \<Rightarrow> events @ [event]
                          | _ \<Rightarrow> events)
                     | _ \<Rightarrow> events)))
      else (events, []))"
  by pat_completeness auto
termination
  by (relation "measure (\<lambda>(parse, stringify, buffer, pos, events). length buffer - pos)")
    (simp_all add: scan_advance)

declare parseKiroEvents_loop.simps [simp del]

definition parseKiroEvents ::
  "(string \<Rightarrow> json option) \<Rightarrow> (json \<Rightarrow> string) \<Rightarrow> string \<Rightarrow> KiroStreamEvent list \<times> string" where
  "parseKiroEvents parse stringify buffer = parseKiroEvents_loop parse stringify buffer 0 []"

section \<open>Brace balance\<close>

text \<open>
  Where a fragment that starts at the first character of a text ends, said by counting
  and without the scanner's loop. A character is escaped when an unescaped backslash
  stands right before it. An unescaped double quote opens or closes a string, so a
  position lies inside a string when an odd number of such quotes precede it. A brace
  counts when it is neither escaped nor inside a string; the depth at a position is the
  number of opening braces that count before it minus the number of closing ones. The
  text closes at a counting closing brace in front of which the depth is one, and its
  balanced end is the first position where it closes.
\<close>

fun escaped :: "string \<Rightarrow> nat \<Rightarrow> bool" where
  "escaped s 0 = False"
| "escaped s (Suc j) = (s ! j = CHR 0x5C \<and> \<not> escaped s j)"

definition quote_at :: "string \<Rightarrow> nat \<Rightarrow> bool" where
  "quote_at s j \<longleftrightarrow> s ! j = CHR 0x22 \<and> \<not> escaped s j"

definition in_string :: "string \<Rightarrow> nat \<Rightarrow> bool" where
  "in_string s j \<longleftrightarrow> odd (length (filter (quote_at s) [0..<j]))"

definition brace_at :: "char \<Rightarrow> string \<Rightarrow> nat \<Rightarrow> bool" where
  "brace_at c s j \<longleftrightarrow> s ! j = c \<and> \<not> escaped s j \<and> \<not> in_string s j"

definition brace_depth :: "string \<Rightarrow> nat \<Rightarrow> int" where
  "brace_depth s j = int (length (filter (brace_at (CHR ''{'') s) [0..<j]))
                   - int (length (filter (brace_at (CHR ''}'') s) [0..<j]))"

definition closes :: "string \<Rightarrow> nat \<Rightarrow> bool" where
  "closes s j \<longleftrightarrow> j < length s \<and> brace_at (CHR ''}'') s j \<and> brace_depth s j = 1"

text \<open>
  In a buffer, the fragment that starts at position \<open>a\<close> has its balanced end at
  position \<open>e\<close>, or has none.
\<close>

definition balanced_end :: "string \<Rightarrow> nat \<Rightarrow> nat \<Rightarrow> bool" where
  "balanced_end buffer a e \<longleftrightarrow>
     a \<le> e \<and> closes (drop a buffer) (e - a) \<and> (\<forall>k < e - a. \<not> closes (drop a buffer) k)"

definition unbalanced :: "string \<Rightarrow> nat \<Rightarrow> bool" where
  "unbalanced buffer a \<longleftrightarrow> (\<forall>k. \<not> closes (drop a buffer) k)"

lemma in_string_Suc: "in_string s (Suc j) = (in_string s j \<noteq> quote_at s j)"
  by (simp add: in_string_def)

lemma brace_depth_Suc:
  "brace_depth s (Suc j) = brace_depth s j + (if brace_at (CHR ''{'') s j then 1 else 0)
                      - (if brace_at (CHR ''}'') s j then 1 else 0)"
  by (simp add: brace_depth_def)

lemma findJsonEnd_loop_step:
  "findJsonEnd_loop (c # rest) i d q esc =
     (if \<not> esc \<and> \<not> q \<and> c = CHR ''}'' \<and> d = 1 then Some i
      else findJsonEnd_loop rest (Suc i)
             (d + (if c = CHR ''{'' \<and> \<not> esc \<and> \<not> q then 1 else 0)
                - (if c = CHR ''}'' \<and> \<not> esc \<and> \<not> q then 1 else 0))
             (q \<noteq> (c = CHR 0x22 \<and> \<not> esc)) (c = CHR 0x5C \<and> \<not> esc))"
  by auto

lemma closes_iff:
  "j < length s \<Longrightarrow>
   closes s j \<longleftrightarrow> \<not> escaped s j \<and> \<not> in_string s j \<and> s ! j = CHR ''}'' \<and> brace_depth s j = 1"
  by (auto simp: closes_def brace_at_def)

text \<open>
  The scanner's loop, started at position \<open>j\<close> of a text in the state the counting
  gives for that position, returns the first position from \<open>j\<close> on where the text
  closes, and nothing when there is none.
\<close>

lemma findJsonEnd_loop_scan:
  "j \<le> length s \<Longrightarrow>
   (case findJsonEnd_loop (drop j s) (a + j) (brace_depth s j) (in_string s j) (escaped s j) of
      Some k \<Rightarrow> a + j \<le> k \<and> closes s (k - a) \<and> (\<forall>m. j \<le> m \<and> m < k - a \<longrightarrow> \<not> closes s m)
    | None \<Rightarrow> (\<forall>m. j \<le> m \<longrightarrow> \<not> closes s m))"
proof (induction "length s - j" arbitrary: j)
  case 0
  then have "drop j s = []" by simp
  then show ?case using 0 by (auto simp: closes_def)
next
  case (Suc n)
  then have j: "j < length s" by arith
  then have d: "drop j s = s ! j # drop (Suc j) s" by (simp add: Cons_nth_drop_Suc)
  from Suc have n: "n = length s - Suc j" "Suc j \<le> length s" by arith+
  note ih = Suc.hyps(1) [OF n]
  show ?case
  proof (cases "closes s j")
    case True
    then have "findJsonEnd_loop (drop j s) (a + j) (brace_depth s j) (in_string s j) (escaped s j)
        = Some (a + j)"
      unfolding d findJsonEnd_loop_step using closes_iff [OF j] by simp
    with True show ?thesis by auto
  next
    case False
    define c where "c = s ! j"
    define esc where "esc = escaped s j"
    define q where "q = in_string s j"
    define dd where "dd = brace_depth s j"
    from False have nc: "\<not> (\<not> esc \<and> \<not> q \<and> c = CHR ''}'' \<and> dd = 1)"
      using closes_iff [OF j] by (simp add: c_def esc_def q_def dd_def)
    have E: "escaped s (Suc j) = (c = CHR 0x5C \<and> \<not> esc)"
      by (simp add: c_def esc_def)
    have Q: "in_string s (Suc j) = (q \<noteq> (c = CHR 0x22 \<and> \<not> esc))"
      by (simp add: in_string_Suc quote_at_def c_def esc_def q_def)
    have D: "brace_depth s (Suc j) = dd + (if c = CHR ''{'' \<and> \<not> esc \<and> \<not> q then 1 else 0)
                - (if c = CHR ''}'' \<and> \<not> esc \<and> \<not> q then 1 else 0)"
      unfolding brace_depth_Suc brace_at_def c_def esc_def q_def dd_def ..
    have "findJsonEnd_loop (c # drop (Suc j) s) (a + j) dd q esc
        = findJsonEnd_loop (drop (Suc j) s) (Suc (a + j)) (brace_depth s (Suc j))
            (in_string s (Suc j)) (escaped s (Suc j))"
      unfolding E Q D by (subst findJsonEnd_loop_step) (simp only: nc if_False)
    then have eq: "findJsonEnd_loop (drop j s) (a + j) (brace_depth s j) (in_string s j) (escaped s j)
        = findJsonEnd_loop (drop (Suc j) s) (a + Suc j) (brace_depth s (Suc j))
            (in_string s (Suc j)) (escaped s (Suc j))"
      unfolding d c_def esc_def q_def dd_def by simp
    show ?thesis
    proof (cases "findJsonEnd_loop (drop (Suc j) s) (a + Suc j) (brace_depth s (Suc j))
        (in_string s (Suc j)) (escaped s (Suc j))")
      case None
      with ih have r: "\<forall>m. Suc j \<le> m \<longrightarrow> \<not> closes s m" by simp
      have "\<not> closes s m" if "j \<le> m" for m
        using that False r by (cases "m = j") auto
      then show ?thesis unfolding eq None by simp
    next
      case (Some k)
      with ih have r: "a + Suc j \<le> k" "closes s (k - a)"
        "\<forall>m. Suc j \<le> m \<and> m < k - a \<longrightarrow> \<not> closes s m" by simp_all
      have "\<not> closes s m" if "j \<le> m" "m < k - a" for m
        using that False r(3) by (cases "m = j") auto
      with r(1,2) show ?thesis unfolding eq Some by simp
    qed
  qed
qed

lemma findJsonEnd_Some:
  "findJsonEnd buffer a = Some e \<Longrightarrow> balanced_end buffer a e"
  using findJsonEnd_loop_scan [of 0 "drop a buffer" a]
  by (auto simp: findJsonEnd_def balanced_end_def brace_depth_def in_string_def)

lemma findJsonEnd_None:
  "findJsonEnd buffer a = None \<Longrightarrow> unbalanced buffer a"
  using findJsonEnd_loop_scan [of 0 "drop a buffer" a]
  by (auto simp: findJsonEnd_def unbalanced_def brace_depth_def in_string_def)

lemma balanced_end_bounds: "balanced_end buffer a e \<Longrightarrow> a \<le> e \<and> e < length buffer"
  by (auto simp: balanced_end_def closes_def)

lemma balanced_end_unique:
  "balanced_end buffer a e \<Longrightarrow> balanced_end buffer a e' \<Longrightarrow> e = e'"
  unfolding balanced_end_def
  by (cases "e - a" "e' - a" rule: linorder_cases) auto

section \<open>Frames of a buffer\<close>

text \<open>
  What the scanner is meant to find, said without the loop: from a position, either no
  anchor follows; or the first anchor that follows opens a fragment with no balanced
  end (the truncated fragment, kept as the remainder); or it opens a fragment whose
  balanced end is \<open>e\<close>, and the rest of the decomposition starts right after \<open>e\<close>.
  \<open>in_order\<close> says that the fragments lie one after the other between the start
  position and a bound, so a byte outside them belongs to no fragment.
\<close>

inductive frames :: "string \<Rightarrow> nat \<Rightarrow> (nat \<times> nat) list \<Rightarrow> nat option \<Rightarrow> bool"
  for buffer :: string where
  no_anchor: "(\<forall>j. pos \<le> j \<longrightarrow> \<not> is_anchor buffer j) \<Longrightarrow> frames buffer pos [] None"
| truncated: "first_anchor buffer pos a \<Longrightarrow> unbalanced buffer a
     \<Longrightarrow> frames buffer pos [] (Some a)"
| complete: "first_anchor buffer pos a \<Longrightarrow> balanced_end buffer a e
     \<Longrightarrow> frames buffer (e + 1) fs t \<Longrightarrow> frames buffer pos ((a, e) # fs) t"

fun in_order :: "nat \<Rightarrow> (nat \<times> nat) list \<Rightarrow> nat \<Rightarrow> bool" where
  "in_order pos [] bound = (pos \<le> bound)"
| "in_order pos ((a, e) # fs) bound = (pos \<le> a \<and> a \<le> e \<and> in_order (e + 1) fs bound)"

text \<open>
  The text of the fragment from \<open>a\<close> to \<open>e\<close>, both included, and the event it
  stands for: the one the classifier gives for the object the text parses to, and none
  when the text does not parse, parses to something else than an object, or the
  classifier fails or recognises nothing. The events of a list of fragments are those
  of its members that stand for one, in order.
\<close>

definition fragment_text :: "string \<Rightarrow> nat \<times> nat \<Rightarrow> string" where
  "fragment_text buffer = (\<lambda>(a, e). take (e + 1 - a) (drop a buffer))"

definition fragment_event ::
  "(string \<Rightarrow> json option) \<Rightarrow> (json \<Rightarrow> string) \<Rightarrow> string \<Rightarrow> KiroStreamEvent option" where
  "fragment_event parse stringify fragment =
     (case parse fragment of
        None \<Rightarrow> None
      | Some v \<Rightarrow>
          (case v of
             JObject obj \<Rightarrow> (case parseKiroEvent stringify obj of Inl err \<Rightarrow> None | Inr ev \<Rightarrow> ev)
           | _ \<Rightarrow> None))"

definition events_of ::
  "(string \<Rightarrow> json option) \<Rightarrow> (json \<Rightarrow> string) \<Rightarrow> string \<Rightarrow> (nat \<times> nat) list
     \<Rightarrow> KiroStreamEvent list" where
  "events_of parse stringify buffer fs =
     List.map_filter (\<lambda>f. fragment_event parse stringify (fragment_text buffer f)) fs"

definition remainder_of :: "string \<Rightarrow> nat option \<Rightarrow> string" where
  "remainder_of buffer t = (case t of None \<Rightarrow> [] | Some a \<Rightarrow> drop a buffer)"

lemma EVENT_PATTERNS_nonempty: "p \<in> set EVENT_PATTERNS \<Longrightarrow> p \<noteq> []"
  by (auto simp: EVENT_PATTERNS_def)

lemma is_anchor_in_buffer: "is_anchor buffer j \<Longrightarrow> j < length buffer"
proof (rule ccontr)
  assume a: "is_anchor buffer j" and "\<not> j < length buffer"
  then have "drop j buffer = []" by simp
  with a EVENT_PATTERNS_nonempty show False by (auto simp: is_anchor_def)
qed

lemma frames_in_order:
  "frames buffer pos fs t \<Longrightarrow>
     in_order pos fs (case t of None \<Rightarrow> max pos (length buffer) | Some a \<Rightarrow> a)
     \<and> (\<forall>(a, e) \<in> set fs. e < length buffer)"
proof (induction rule: frames.induct)
  case (no_anchor pos)
  then show ?case by simp
next
  case (truncated pos a)
  then show ?case by (simp add: first_anchor_def)
next
  case (complete pos a e fs t)
  from complete.hyps(2) have "a \<le> e" "e < length buffer" using balanced_end_bounds by auto
  with complete show ?case by (auto simp: first_anchor_def split: option.splits)
qed

text \<open>A buffer has one decomposition into frames from a position.\<close>

lemma first_anchor_unique:
  "first_anchor buffer pos a \<Longrightarrow> first_anchor buffer pos a' \<Longrightarrow> a = a'"
  unfolding first_anchor_def by (cases a a' rule: linorder_cases) auto

lemma frames_unique:
  "frames buffer pos fs t \<Longrightarrow> frames buffer pos fs' t' \<Longrightarrow> fs = fs' \<and> t = t'"
proof (induction arbitrary: fs' t' rule: frames.induct)
  case (no_anchor pos)
  from no_anchor.prems no_anchor.hyps show ?case
    by (cases rule: frames.cases) (auto simp: first_anchor_def)
next
  case (truncated pos a)
  from truncated.prems show ?case
  proof (cases rule: frames.cases)
    case no_anchor
    with truncated.hyps show ?thesis by (auto simp: first_anchor_def)
  next
    case (truncated a')
    with truncated.hyps first_anchor_unique show ?thesis by blast
  next
    case (complete a' e fs'')
    with truncated.hyps first_anchor_unique [of buffer pos a a'] show ?thesis
      by (auto simp: unbalanced_def balanced_end_def)
  qed
next
  case (complete pos a e fs t)
  from complete.prems show ?case
  proof (cases rule: frames.cases)
    case no_anchor
    with complete.hyps show ?thesis by (auto simp: first_anchor_def)
  next
    case (truncated a')
    with complete.hyps first_anchor_unique [of buffer pos a a'] show ?thesis
      by (auto simp: unbalanced_def balanced_end_def)
  next
    case c: (complete a' e' fs'')
    from c(2) complete.hyps(1) have a: "a' = a" by (rule first_anchor_unique)
    with c(3) complete.hyps(2) have e: "e' = e" using balanced_end_unique by blast
    from c(4) have "frames buffer (e + 1) fs'' t'" unfolding e .
    from complete.IH [OF this] c(1) a e show ?thesis by simp
  qed
qed

lemma events_of_Cons:
  "events_of parse stringify buffer ((a, e) # fs)
     = (case parse (substring buffer a (e + 1)) of
          Some (JObject parsed) \<Rightarrow>
            (case parseKiroEvent stringify parsed of
               Inr (Some event) \<Rightarrow> [event]
             | _ \<Rightarrow> [])
        | _ \<Rightarrow> [])
       @ events_of parse stringify buffer fs"
  by (simp add: events_of_def List.map_filter_simps fragment_event_def fragment_text_def
      substring_def split: option.splits json.splits sum.splits)

lemma parseKiroEvents_loop_frames:
  "\<exists>fs t. frames buffer pos fs t
     \<and> parseKiroEvents_loop parse stringify buffer pos events
         = (events @ events_of parse stringify buffer fs, remainder_of buffer t)"
proof (induction parse stringify buffer pos events rule: parseKiroEvents_loop.induct)
  case (1 parse stringify buffer pos events)
  show ?case
  proof (cases "pos < length buffer")
    case False
    then have "\<forall>j. pos \<le> j \<longrightarrow> \<not> is_anchor buffer j"
      using is_anchor_in_buffer by fastforce
    then have "frames buffer pos [] None" by (rule frames.no_anchor)
    moreover have "parseKiroEvents_loop parse stringify buffer pos events = (events, [])"
      using False by (simp add: parseKiroEvents_loop.simps)
    ultimately show ?thesis
      by (intro exI [of _ "[]"] exI [of _ None])
        (simp add: events_of_def List.map_filter_simps remainder_of_def)
  next
    case True
    show ?thesis
    proof (cases "findNextEventStart buffer pos")
      case None
      then have "\<forall>j. pos \<le> j \<longrightarrow> \<not> is_anchor buffer j"
        using findNextEventStart_None by blast
      then have "frames buffer pos [] None" by (rule frames.no_anchor)
      moreover have "parseKiroEvents_loop parse stringify buffer pos events = (events, [])"
        using True None by (simp add: parseKiroEvents_loop.simps)
      ultimately show ?thesis
        by (intro exI [of _ "[]"] exI [of _ None])
          (simp add: events_of_def List.map_filter_simps remainder_of_def)
    next
      case (Some a)
      then have fa: "first_anchor buffer pos a"
        using findNextEventStart_Some True by simp
      show ?thesis
      proof (cases "findJsonEnd buffer a")
        case None
        from fa findJsonEnd_None [OF None] have "frames buffer pos [] (Some a)"
          by (rule frames.truncated)
        moreover have "parseKiroEvents_loop parse stringify buffer pos events
            = (events, drop a buffer)"
          using True Some None by (simp add: parseKiroEvents_loop.simps)
        ultimately show ?thesis
          by (intro exI [of _ "[]"] exI [of _ "Some a"])
            (simp add: events_of_def List.map_filter_simps remainder_of_def)
      next
        case (Some e)
        define new where "new =
          (case parse (substring buffer a (e + 1)) of
             Some (JObject parsed) \<Rightarrow>
               (case parseKiroEvent stringify parsed of
                  Inr (Some event) \<Rightarrow> [event]
                | _ \<Rightarrow> [])
           | _ \<Rightarrow> [])"
        define ev where "ev =
          (case parse (substring buffer a (e + 1)) of
             Some (JObject parsed) \<Rightarrow>
               (case parseKiroEvent stringify parsed of
                  Inr (Some event) \<Rightarrow> events @ [event]
                | _ \<Rightarrow> events)
           | _ \<Rightarrow> events)"
        have ev: "ev = events @ new"
          unfolding ev_def new_def by (simp split: option.splits json.splits sum.splits)
        from "1.IH" [OF True \<open>findNextEventStart buffer pos = Some a\<close> Some]
        obtain fs t where ih: "frames buffer (e + 1) fs t"
          "parseKiroEvents_loop parse stringify buffer (e + 1) ev
             = (ev @ events_of parse stringify buffer fs, remainder_of buffer t)"
          unfolding ev_def by blast
        from fa findJsonEnd_Some [OF Some] ih(1) have "frames buffer pos ((a, e) # fs) t"
          by (rule frames.complete)
        moreover have "parseKiroEvents_loop parse stringify buffer pos events
            = parseKiroEvents_loop parse stringify buffer (e + 1) ev"
          using True \<open>findNextEventStart buffer pos = Some a\<close> Some
          by (subst parseKiroEvents_loop.simps) (simp add: ev_def)
        moreover have "events_of parse stringify buffer ((a, e) # fs)
            = new @ events_of parse stringify buffer fs"
          unfolding new_def by (rule events_of_Cons)
        ultimately show ?thesis
          using ih(2) ev by (intro exI [of _ "(a, e) # fs"] exI [of _ t]) simp
      qed
    qed
  qed
qed

text \<open>
  \<^verbatim>\<open>JSON.parse\<close> on the fragments the examples of this development use, and the
  buffer of the example: noise, a complete fragment with a closing brace inside a string
  and a nested object, noise, a second complete fragment, noise, a truncated fragment.
\<close>

definition nested_fragment :: string where
  "nested_fragment = CHR ''{'' # CHR 0x22 # ''content'' @ [CHR 0x22, CHR '':'', CHR 0x22] @ ''a}''
     @ [CHR 0x22, CHR '','', CHR 0x22] @ ''k'' @ [CHR 0x22, CHR '':''] @ ''{}}''"

definition nested_call :: string where
  "nested_call = CHR ''{'' # CHR 0x22 # ''x'' @ [CHR 0x22, CHR '':'', CHR 0x22]
     @ ''[Called b with args: {}]'' @ [CHR 0x22, CHR ''}'']"

definition sample_parse :: "string \<Rightarrow> json option" where
  "sample_parse s =
     (if s = CHR ''{'' # CHR 0x22 # ''content'' @ [CHR 0x22, CHR '':'', CHR 0x22] @ ''hi'' @ [CHR 0x22, CHR ''}'']
        then Some (JObject [(''content'', JString ''hi'')])
      else if s = nested_fragment
        then Some (JObject [(''content'', JString ''a}''), (''k'', JObject [])])
      else if s = nested_call
        then Some (JObject [(''x'', JString ''[Called b with args: {}]'')])
      else if s = ''{}'' then Some (JObject [])
      else None)"

definition sample_buffer :: string where
  "sample_buffer = ''garbage{'' @ nested_fragment
     @ ''}more{'' @ CHR ''{'' # CHR 0x22 # ''content'' @ [CHR 0x22, CHR '':'', CHR 0x22] @ ''hi'' @ [CHR 0x22, CHR ''}'']
     @ ''more{'' @ CHR ''{'' # CHR 0x22 # ''content'' @ [CHR 0x22, CHR '':'', CHR 0x22] @ ''incomp''"

text \<open>
  The balanced end of the first fragment of the example is its last character, at
  position 22: the closing brace at position 13 stands inside a string, and the one at
  position 21 closes the nested object, at depth two.
\<close>

lemma balanced_end_code [code]:
  "balanced_end buffer a e \<longleftrightarrow>
     a \<le> e \<and> closes (drop a buffer) (e - a)
     \<and> list_all (\<lambda>k. \<not> closes (drop a buffer) k) [0..<e - a]"
  by (auto simp: balanced_end_def list_all_iff)

lemma nested_fragment_balanced:
  "balanced_end nested_fragment 0 22
   \<and> nested_fragment ! 13 = CHR ''}'' \<and> in_string nested_fragment 13
   \<and> nested_fragment ! 21 = CHR ''}'' \<and> brace_depth nested_fragment 21 = 2
   \<and> length nested_fragment = 23"
  by code_simp

text \<open>
  Claim C3. For every buffer the scan is the decomposition into frames from position 0:
  the events are those of the complete fragments, in order, each fragment starting at the
  first anchor after the previous fragment's end and ending at its balanced end (the
  first closing brace, outside strings and not escaped, that brings the brace depth
  back to zero), so that the bytes before the first anchor and between a fragment's end
  and the next anchor are in no fragment; when the last anchored fragment has no
  balanced end the remainder is the buffer's suffix from that fragment's anchor on,
  unchanged, and otherwise the remainder is empty.
\<close>

theorem parseKiroEvents_frames:
  "\<exists>fs t. frames buffer 0 fs t
     \<and> in_order 0 fs (case t of None \<Rightarrow> length buffer | Some a \<Rightarrow> a)
     \<and> (\<forall>(a, e) \<in> set fs. e < length buffer)
     \<and> parseKiroEvents parse stringify buffer
         = (events_of parse stringify buffer fs, remainder_of buffer t)"
proof -
  from parseKiroEvents_loop_frames [of buffer 0 parse stringify "[]"]
  obtain fs t where f: "frames buffer 0 fs t"
    "parseKiroEvents_loop parse stringify buffer 0 []
       = (events_of parse stringify buffer fs, remainder_of buffer t)" by auto
  from frames_in_order [OF f(1)]
  have "in_order 0 fs (case t of None \<Rightarrow> length buffer | Some a \<Rightarrow> a)"
    by (cases t) simp_all
  moreover from frames_in_order [OF f(1)]
  have "\<forall>(a, e) \<in> set fs. e < length buffer" by simp
  ultimately show ?thesis using f unfolding parseKiroEvents_def by blast
qed

theorem parseKiroEvents_frames_witness:
  "parseKiroEvents sample_parse sample_stringify sample_buffer
     = ([Content (JString ''a}''), Content (JString ''hi'')],
        CHR ''{'' # CHR 0x22 # ''content'' @ [CHR 0x22, CHR '':'', CHR 0x22] @ ''incomp'')"
proof -
  have ev: "parseKiroEvents sample_parse sample_stringify sample_buffer
     = ([Content (JString ''a}''), Content (JString ''hi'')],
        CHR ''{'' # CHR 0x22 # ''content'' @ [CHR 0x22, CHR '':'', CHR 0x22] @ ''incomp'')"
    by code_simp
  from parseKiroEvents_frames [of sample_buffer sample_parse sample_stringify] ev
  show ?thesis by simp
qed

section \<open>Output message and produced events\<close>

text \<open>
  The content blocks of the output message and the events pushed to the caller. The
  \<^verbatim>\<open>partial\<close> field of an event is a reference to the output message itself and is
  left out.
\<close>

datatype ContentBlock =
    TextBlock string
  | ThinkingBlock string
  | ToolCallBlock string string json

datatype StopReason = Stop | ToolUseReason | Length | Aborted | ErrorReason

datatype AssistantMessageEvent =
    Start
  | TextStart nat
  | TextDelta nat string
  | TextEnd nat string
  | ThinkingStart nat
  | ThinkingDelta nat string
  | ThinkingEnd nat string
  | ToolcallStart nat
  | ToolcallDelta nat string
  | ToolcallEnd nat ContentBlock
  | Done StopReason
  | Error StopReason


section \<open>Thinking segmenter (thinking-parser.ts)\<close>

text \<open>
  The parser shares the output message and the event stream with its caller; both are
  fields of the state it works on. A block index is \<open>None\<close> for the source's
  \<^verbatim>\<open>null\<close>. The index stored by \<open>emitText\<close> and \<open>emitThinking\<close> is the
  position of the block they have just pushed, so the block read back there has the
  kind the source casts it to.
\<close>

definition THINKING_TAG_VARIANTS :: "(string \<times> string) list" where
  "THINKING_TAG_VARIANTS =
     [(''<thinking>'', ''</thinking>''),
      (''<think>'', ''</think>''),
      (''<reasoning>'', ''</reasoning>''),
      (''<thought>'', ''</thought>'')]"

definition MAX_OPEN_TAG_LEN :: nat where
  "MAX_OPEN_TAG_LEN = foldr max (map (\<lambda>v. length (fst v)) THINKING_TAG_VARIANTS) 0"

definition MAX_CLOSE_TAG_LEN :: nat where
  "MAX_CLOSE_TAG_LEN = foldr max (map (\<lambda>v. length (snd v)) THINKING_TAG_VARIANTS) 0"

record ParserState =
  output_content :: "ContentBlock list"
  stream :: "AssistantMessageEvent list"
  textBuffer :: string
  inThinking :: bool
  thinkingExtracted :: bool
  thinkingBlockIndex :: "nat option"
  textBlockIndex :: "nat option"
  activeEndTag :: string

definition new_parser :: "ContentBlock list \<Rightarrow> AssistantMessageEvent list \<Rightarrow> ParserState" where
  "new_parser output strm =
     \<lparr>output_content = output, stream = strm, textBuffer = [], inThinking = False,
      thinkingExtracted = False, thinkingBlockIndex = None, textBlockIndex = None,
      activeEndTag = ''</thinking>''\<rparr>"

fun add_text :: "ContentBlock \<Rightarrow> string \<Rightarrow> ContentBlock" where
  "add_text (TextBlock t) x = TextBlock (t @ x)"
| "add_text b x = b"

fun add_thinking :: "ContentBlock \<Rightarrow> string \<Rightarrow> ContentBlock" where
  "add_thinking (ThinkingBlock t) x = ThinkingBlock (t @ x)"
| "add_thinking b x = b"

fun block_text :: "ContentBlock \<Rightarrow> string" where
  "block_text (TextBlock t) = t"
| "block_text (ThinkingBlock t) = t"
| "block_text (ToolCallBlock i n a) = []"

definition emitText :: "string \<Rightarrow> ParserState \<Rightarrow> ParserState" where
  "emitText text s =
     (let s1 = (case textBlockIndex s of
                  None \<Rightarrow> s\<lparr>textBlockIndex := Some (length (output_content s)),
                            output_content := output_content s @ [TextBlock []],
                            stream := stream s @ [TextStart (length (output_content s))]\<rparr>
                | Some i \<Rightarrow> s);
          idx = the (textBlockIndex s1)
      in s1\<lparr>output_content := (output_content s1)[idx := add_text (output_content s1 ! idx) text],
            stream := stream s1 @ [TextDelta idx text]\<rparr>)"

definition emitThinking :: "string \<Rightarrow> ParserState \<Rightarrow> ParserState" where
  "emitThinking thinking s =
     (let s1 = (case thinkingBlockIndex s of
                  None \<Rightarrow> s\<lparr>thinkingBlockIndex := Some (length (output_content s)),
                            output_content := output_content s @ [ThinkingBlock []],
                            stream := stream s @ [ThinkingStart (length (output_content s))]\<rparr>
                | Some i \<Rightarrow> s);
          idx = the (thinkingBlockIndex s1)
      in s1\<lparr>output_content :=
              (output_content s1)[idx := add_thinking (output_content s1 ! idx) thinking],
            stream := stream s1 @ [ThinkingDelta idx thinking]\<rparr>)"

definition pick_open ::
  "string \<Rightarrow> (nat \<times> string \<times> string) option \<Rightarrow> string \<times> string
     \<Rightarrow> (nat \<times> string \<times> string) option" where
  "pick_open buf best variant =
     (case indexOf buf (fst variant) 0 of
        None \<Rightarrow> best
      | Some pos \<Rightarrow>
          (case best of
             None \<Rightarrow> Some (pos, variant)
           | Some (bestPos, bestVariant) \<Rightarrow>
               if pos < bestPos then Some (pos, variant) else best))"

definition best_open :: "string \<Rightarrow> (nat \<times> string \<times> string) option" where
  "best_open buf = foldl (pick_open buf) None THINKING_TAG_VARIANTS"

definition processBeforeThinking :: "ParserState \<Rightarrow> ParserState" where
  "processBeforeThinking s =
     (case best_open (textBuffer s) of
        Some (bestPos, bestVariant) \<Rightarrow>
          (let s1 = (if bestPos > 0 then emitText (take bestPos (textBuffer s)) s else s)
           in s1\<lparr>textBuffer := drop (bestPos + length (fst bestVariant)) (textBuffer s1),
                 activeEndTag := snd bestVariant,
                 inThinking := True\<rparr>)
      | None \<Rightarrow>
          (let safeLen = length (textBuffer s) - MAX_OPEN_TAG_LEN
           in if safeLen > 0
              then (emitText (take safeLen (textBuffer s)) s)\<lparr>textBuffer := drop safeLen (textBuffer s)\<rparr>
              else s))"

definition processInsideThinking :: "ParserState \<Rightarrow> ParserState" where
  "processInsideThinking s =
     (case indexOf (textBuffer s) (activeEndTag s) 0 of
        Some endPos \<Rightarrow>
          (let s1 = (if endPos > 0 then emitThinking (take endPos (textBuffer s)) s else s);
               s2 = (case thinkingBlockIndex s1 of
                       Some i \<Rightarrow> s1\<lparr>stream := stream s1
                                  @ [ThinkingEnd i (block_text (output_content s1 ! i))]\<rparr>
                     | None \<Rightarrow> s1);
               rest = drop (endPos + length (activeEndTag s)) (textBuffer s)
           in s2\<lparr>textBuffer := (if prefix [CHR 0x0A, CHR 0x0A] rest then drop 2 rest else rest),
                 inThinking := False,
                 thinkingExtracted := True\<rparr>)
      | None \<Rightarrow>
          (let safeLen = length (textBuffer s) - MAX_CLOSE_TAG_LEN
           in if safeLen > 0
              then (emitThinking (take safeLen (textBuffer s)) s)\<lparr>textBuffer := drop safeLen (textBuffer s)\<rparr>
              else s))"

definition processAfterThinking :: "ParserState \<Rightarrow> ParserState" where
  "processAfterThinking s = (emitText (textBuffer s) s)\<lparr>textBuffer := []\<rparr>"

function processChunk_loop :: "ParserState \<Rightarrow> ParserState" where
  "processChunk_loop s =
     (if length (textBuffer s) > 0 then
        (let before = \<not> inThinking s \<and> \<not> thinkingExtracted s;
             s1 = (if before then processBeforeThinking s else s)
         in if before \<and> length (textBuffer s1) = 0 then s1
            else
              (let s2 = (if inThinking s1 then processInsideThinking s1 else s1)
               in if inThinking s1 \<and> length (textBuffer s2) = 0 then s2
                  else if thinkingExtracted s2 then processAfterThinking s2
                  else if length (textBuffer s2) \<ge> length (textBuffer s) then s2
                  else processChunk_loop s2))
      else s)"
  by pat_completeness auto
termination
  by (relation "measure (\<lambda>s. length (textBuffer s))") auto

definition processChunk :: "string \<Rightarrow> ParserState \<Rightarrow> ParserState" where
  "processChunk chunk s = processChunk_loop (s\<lparr>textBuffer := textBuffer s @ chunk\<rparr>)"

definition finalize :: "ParserState \<Rightarrow> ParserState" where
  "finalize s =
     (if length (textBuffer s) = 0 then s
      else (case (inThinking s, thinkingBlockIndex s) of
              (True, Some i) \<Rightarrow>
                (let content' = (output_content s)[i := add_thinking (output_content s ! i) (textBuffer s)]
                 in s\<lparr>output_content := content',
                      stream := stream s @ [ThinkingDelta i (textBuffer s),
                                            ThinkingEnd i (block_text (content' ! i))],
                      textBuffer := []\<rparr>)
            | _ \<Rightarrow> (emitText (textBuffer s) s)\<lparr>textBuffer := []\<rparr>))"

text \<open>
  Feeding a sequence of chunks to a fresh parser, and what a stream of events carries:
  the answer text, the thinking text and the thinking-closed boundaries.
\<close>

definition feed :: "string list \<Rightarrow> ParserState" where
  "feed chunks = foldl (\<lambda>s c. processChunk c s) (new_parser [] []) chunks"

fun thinking_ends :: "AssistantMessageEvent list \<Rightarrow> (nat \<times> string) list" where
  "thinking_ends [] = []"
| "thinking_ends (ThinkingEnd i c # es) = (i, c) # thinking_ends es"
| "thinking_ends (e # es) = thinking_ends es"

fun text_deltas :: "AssistantMessageEvent list \<Rightarrow> string" where
  "text_deltas [] = []"
| "text_deltas (TextDelta i d # es) = d @ text_deltas es"
| "text_deltas (e # es) = text_deltas es"

fun thinking_deltas :: "AssistantMessageEvent list \<Rightarrow> string" where
  "thinking_deltas [] = []"
| "thinking_deltas (ThinkingDelta i d # es) = d @ thinking_deltas es"
| "thinking_deltas (e # es) = thinking_deltas es"

section \<open>The segmenter's hold-back\<close>

declare processChunk_loop.simps [simp del]

lemma text_deltas_append: "text_deltas (xs @ ys) = text_deltas xs @ text_deltas ys"
  by (induction xs rule: text_deltas.induct) simp_all

lemma thinking_deltas_append: "thinking_deltas (xs @ ys) = thinking_deltas xs @ thinking_deltas ys"
  by (induction xs rule: thinking_deltas.induct) simp_all

lemma emitText_fields:
  "textBuffer (emitText t s) = textBuffer s"
  "inThinking (emitText t s) = inThinking s"
  "thinkingExtracted (emitText t s) = thinkingExtracted s"
  "thinkingBlockIndex (emitText t s) = thinkingBlockIndex s"
  "activeEndTag (emitText t s) = activeEndTag s"
  "text_deltas (stream (emitText t s)) = text_deltas (stream s) @ t"
  "thinking_deltas (stream (emitText t s)) = thinking_deltas (stream s)"
  by (simp_all add: emitText_def Let_def text_deltas_append thinking_deltas_append
      split: option.splits)

lemma emitThinking_fields:
  "textBuffer (emitThinking t s) = textBuffer s"
  "inThinking (emitThinking t s) = inThinking s"
  "thinkingExtracted (emitThinking t s) = thinkingExtracted s"
  "textBlockIndex (emitThinking t s) = textBlockIndex s"
  "activeEndTag (emitThinking t s) = activeEndTag s"
  "text_deltas (stream (emitThinking t s)) = text_deltas (stream s)"
  "thinking_deltas (stream (emitThinking t s)) = thinking_deltas (stream s) @ t"
  by (simp_all add: emitThinking_def Let_def text_deltas_append thinking_deltas_append
      split: option.splits)

lemma indexOf_None_iff: "indexOf s p 0 = None \<longleftrightarrow> \<not> sublist p s"
  by (simp add: indexOf_def indexOf_aux_None_iff)

lemma pick_open_None:
  "pick_open buf best v = None \<longleftrightarrow> best = None \<and> indexOf buf (fst v) 0 = None"
proof (cases "indexOf buf (fst v) 0")
  case None
  then show ?thesis by (simp add: pick_open_def)
next
  case (Some pos)
  then show ?thesis by (cases best) (auto simp: pick_open_def split: prod.splits)
qed

lemma best_open_fold_None:
  "foldl (pick_open buf) acc vs = None
   \<longleftrightarrow> acc = None \<and> (\<forall>v \<in> set vs. indexOf buf (fst v) 0 = None)"
proof (induction vs arbitrary: acc)
  case Nil
  then show ?case by simp
next
  case (Cons v vs)
  show ?case by (auto simp: Cons.IH pick_open_None)
qed

lemma best_open_None:
  "best_open buf = None \<longleftrightarrow> (\<forall>v \<in> set THINKING_TAG_VARIANTS. \<not> sublist (fst v) buf)"
  by (simp only: best_open_def best_open_fold_None indexOf_None_iff) simp

lemma sublist_drop: "sublist p (drop n xs) \<Longrightarrow> sublist p xs"
proof -
  assume "sublist p (drop n xs)"
  then obtain ps ss where "drop n xs = ps @ p @ ss" by (auto simp: sublist_def)
  then have "xs = (take n xs @ ps) @ p @ ss" by (metis append_take_drop_id append.assoc)
  then show ?thesis unfolding sublist_def by blast
qed

lemma MAX_OPEN_TAG_LEN_val: "MAX_OPEN_TAG_LEN = 11"
  by (simp add: MAX_OPEN_TAG_LEN_def THINKING_TAG_VARIANTS_def)

lemma MAX_CLOSE_TAG_LEN_val: "MAX_CLOSE_TAG_LEN = 12"
  by (simp add: MAX_CLOSE_TAG_LEN_def THINKING_TAG_VARIANTS_def)

lemma before_no_match:
  assumes "\<forall>v \<in> set THINKING_TAG_VARIANTS. \<not> sublist (fst v) (textBuffer s)"
  shows "processBeforeThinking s =
     (if length (textBuffer s) > MAX_OPEN_TAG_LEN
      then (emitText (take (length (textBuffer s) - MAX_OPEN_TAG_LEN) (textBuffer s)) s)
             \<lparr>textBuffer := drop (length (textBuffer s) - MAX_OPEN_TAG_LEN) (textBuffer s)\<rparr>
      else s)"
  using assms by (simp add: processBeforeThinking_def best_open_None [symmetric] Let_def)

lemma inside_no_match:
  assumes "\<not> sublist (activeEndTag s) (textBuffer s)"
  shows "processInsideThinking s =
     (if length (textBuffer s) > MAX_CLOSE_TAG_LEN
      then (emitThinking (take (length (textBuffer s) - MAX_CLOSE_TAG_LEN) (textBuffer s)) s)
             \<lparr>textBuffer := drop (length (textBuffer s) - MAX_CLOSE_TAG_LEN) (textBuffer s)\<rparr>
      else s)"
  using assms by (simp add: processInsideThinking_def indexOf_None_iff [symmetric] Let_def)

lemma loop_step_before:
  assumes "textBuffer s \<noteq> []" "\<not> inThinking s" "\<not> thinkingExtracted s"
    and "processBeforeThinking s = s1"
    and "textBuffer s1 \<noteq> []" "\<not> inThinking s1" "\<not> thinkingExtracted s1"
  shows "processChunk_loop s =
     (if length (textBuffer s1) \<ge> length (textBuffer s) then s1 else processChunk_loop s1)"
  using assms by (subst processChunk_loop.simps) (simp add: Let_def)

lemma loop_step_inside:
  assumes "textBuffer s \<noteq> []" "inThinking s"
    and "processInsideThinking s = s2"
    and "textBuffer s2 \<noteq> []" "\<not> thinkingExtracted s2"
  shows "processChunk_loop s =
     (if length (textBuffer s2) \<ge> length (textBuffer s) then s2 else processChunk_loop s2)"
  using assms by (subst processChunk_loop.simps) (simp add: Let_def)

lemma loop_empty: "textBuffer s = [] \<Longrightarrow> processChunk_loop s = s"
  by (subst processChunk_loop.simps) simp

lemma loop_before_short:
  assumes "\<not> inThinking s" "\<not> thinkingExtracted s"
    and nm: "\<forall>v \<in> set THINKING_TAG_VARIANTS. \<not> sublist (fst v) (textBuffer s)"
    and short: "length (textBuffer s) \<le> MAX_OPEN_TAG_LEN"
  shows "processChunk_loop s = s"
proof (cases "textBuffer s = []")
  case True
  then show ?thesis by (rule loop_empty)
next
  case False
  have "processBeforeThinking s = s" using before_no_match [OF nm] short by simp
  from loop_step_before [OF False assms(1,2) this False assms(1,2)] show ?thesis by simp
qed

lemma loop_before_no_match:
  assumes "\<not> inThinking s" "\<not> thinkingExtracted s"
    and nm: "\<forall>v \<in> set THINKING_TAG_VARIANTS. \<not> sublist (fst v) (textBuffer s)"
  shows "processChunk_loop s =
     (if length (textBuffer s) > MAX_OPEN_TAG_LEN
      then (emitText (take (length (textBuffer s) - MAX_OPEN_TAG_LEN) (textBuffer s)) s)
             \<lparr>textBuffer := drop (length (textBuffer s) - MAX_OPEN_TAG_LEN) (textBuffer s)\<rparr>
      else s)"
proof (cases "length (textBuffer s) > MAX_OPEN_TAG_LEN")
  case False
  then show ?thesis using loop_before_short [OF assms] by simp
next
  case True
  define n where "n = length (textBuffer s) - MAX_OPEN_TAG_LEN"
  define s1 where "s1 = (emitText (take n (textBuffer s)) s)\<lparr>textBuffer := drop n (textBuffer s)\<rparr>"
  have b: "processBeforeThinking s = s1"
    using before_no_match [OF nm] True by (simp add: s1_def n_def)
  have f: "\<not> inThinking s1" "\<not> thinkingExtracted s1" "textBuffer s1 = drop n (textBuffer s)"
    using assms(1,2) by (simp_all add: s1_def emitText_fields)
  have l: "length (textBuffer s1) = MAX_OPEN_TAG_LEN" using True by (simp add: f n_def)
  have ne: "textBuffer s \<noteq> []" "textBuffer s1 \<noteq> []"
    using True l by (auto simp: MAX_OPEN_TAG_LEN_val)
  have nm1: "\<forall>v \<in> set THINKING_TAG_VARIANTS. \<not> sublist (fst v) (textBuffer s1)"
    using nm sublist_drop unfolding f(3) by blast
  have r: "processChunk_loop s1 = s1"
    using loop_before_short [OF f(1,2) nm1] l by simp
  have "processChunk_loop s = s1"
    using loop_step_before [OF ne(1) assms(1,2) b ne(2) f(1,2)] l True r by simp
  with True show ?thesis by (simp add: s1_def n_def)
qed

lemma loop_inside_short:
  assumes "inThinking s" "\<not> thinkingExtracted s"
    and nm: "\<not> sublist (activeEndTag s) (textBuffer s)"
    and short: "length (textBuffer s) \<le> MAX_CLOSE_TAG_LEN"
  shows "processChunk_loop s = s"
proof (cases "textBuffer s = []")
  case True
  then show ?thesis by (rule loop_empty)
next
  case False
  have "processInsideThinking s = s" using inside_no_match [OF nm] short by simp
  from loop_step_inside [OF False assms(1) this False assms(2)] show ?thesis by simp
qed

lemma loop_inside_no_match:
  assumes "inThinking s" "\<not> thinkingExtracted s"
    and nm: "\<not> sublist (activeEndTag s) (textBuffer s)"
  shows "processChunk_loop s =
     (if length (textBuffer s) > MAX_CLOSE_TAG_LEN
      then (emitThinking (take (length (textBuffer s) - MAX_CLOSE_TAG_LEN) (textBuffer s)) s)
             \<lparr>textBuffer := drop (length (textBuffer s) - MAX_CLOSE_TAG_LEN) (textBuffer s)\<rparr>
      else s)"
proof (cases "length (textBuffer s) > MAX_CLOSE_TAG_LEN")
  case False
  then show ?thesis using loop_inside_short [OF assms] by simp
next
  case True
  define n where "n = length (textBuffer s) - MAX_CLOSE_TAG_LEN"
  define s2 where "s2 = (emitThinking (take n (textBuffer s)) s)\<lparr>textBuffer := drop n (textBuffer s)\<rparr>"
  have b: "processInsideThinking s = s2"
    using inside_no_match [OF nm] True by (simp add: s2_def n_def)
  have f: "inThinking s2" "\<not> thinkingExtracted s2" "textBuffer s2 = drop n (textBuffer s)"
    "activeEndTag s2 = activeEndTag s"
    using assms(1,2) by (simp_all add: s2_def emitThinking_fields)
  have l: "length (textBuffer s2) = MAX_CLOSE_TAG_LEN" using True by (simp add: f n_def)
  have ne: "textBuffer s \<noteq> []" "textBuffer s2 \<noteq> []"
    using True l by (auto simp: MAX_CLOSE_TAG_LEN_val)
  have nm2: "\<not> sublist (activeEndTag s2) (textBuffer s2)"
    using nm sublist_drop unfolding f(3,4) by blast
  have r: "processChunk_loop s2 = s2"
    using loop_inside_short [OF f(1,2) nm2] l by simp
  have "processChunk_loop s = s2"
    using loop_step_inside [OF ne(1) assms(1) b ne(2) f(2)] l True r by simp
  with True show ?thesis by (simp add: s2_def n_def)
qed

text \<open>
  The longest open tag is \<^verbatim>\<open><reasoning>\<close>, of 11 characters, and the source holds
  back \<^verbatim>\<open>MAX_OPEN_TAG_LEN\<close> characters, not one less: of the 15 characters of
  "Just plain text" it emits the first four and keeps eleven.
\<close>

theorem processChunk_hold_back_counterexample:
  "\<not> inThinking (new_parser [] []) \<and> \<not> thinkingExtracted (new_parser [] [])
   \<and> best_open ''Just plain text'' = None
   \<and> stream (processChunk ''Just plain text'' (new_parser [] []))
       = [TextStart 0, TextDelta 0 ''Just'']
   \<and> textBuffer (processChunk ''Just plain text'' (new_parser [] [])) = '' plain text''
   \<and> length (textBuffer (processChunk ''Just plain text'' (new_parser [] [])))
       \<noteq> MAX_OPEN_TAG_LEN - 1"
  by code_simp

text \<open>
  Claim C4, amended. For every chunk processed before thinking with no open tag in the
  buffered text, all buffered text is emitted as answer text except a held-back suffix
  of exactly the longest open tag length (11) characters, or the whole text when it is
  shorter; inside thinking with no close tag in the buffered text, all but a held-back
  suffix of the longest close tag length (12) characters, or the whole text when it is
  shorter, is emitted as thinking content.
\<close>

theorem processChunk_hold_back:
  fixes s :: ParserState and chunk :: string
  defines "buf \<equiv> textBuffer s @ chunk"
  defines "s' \<equiv> processChunk chunk s"
  shows
  "(\<not> inThinking s \<and> \<not> thinkingExtracted s
      \<and> (\<forall>v \<in> set THINKING_TAG_VARIANTS. \<not> sublist (fst v) buf) \<longrightarrow>
      textBuffer s' = drop (length buf - min (length buf) MAX_OPEN_TAG_LEN) buf
      \<and> length (textBuffer s') = min (length buf) MAX_OPEN_TAG_LEN
      \<and> text_deltas (stream s') =
           text_deltas (stream s) @ take (length buf - min (length buf) MAX_OPEN_TAG_LEN) buf
      \<and> thinking_deltas (stream s') = thinking_deltas (stream s))
 \<and> (inThinking s \<and> \<not> thinkingExtracted s \<and> \<not> sublist (activeEndTag s) buf \<longrightarrow>
      textBuffer s' = drop (length buf - min (length buf) MAX_CLOSE_TAG_LEN) buf
      \<and> length (textBuffer s') = min (length buf) MAX_CLOSE_TAG_LEN
      \<and> thinking_deltas (stream s') =
           thinking_deltas (stream s) @ take (length buf - min (length buf) MAX_CLOSE_TAG_LEN) buf
      \<and> text_deltas (stream s') = text_deltas (stream s))"
proof (intro conjI impI)
  define s0 where "s0 = s\<lparr>textBuffer := textBuffer s @ chunk\<rparr>"
  have s0: "textBuffer s0 = buf" "inThinking s0 = inThinking s"
    "thinkingExtracted s0 = thinkingExtracted s" "activeEndTag s0 = activeEndTag s"
    "stream s0 = stream s"
    by (simp_all add: s0_def buf_def)
  have s': "s' = processChunk_loop s0" by (simp add: s'_def processChunk_def s0_def)
  {
    assume a: "\<not> inThinking s \<and> \<not> thinkingExtracted s
      \<and> (\<forall>v \<in> set THINKING_TAG_VARIANTS. \<not> sublist (fst v) buf)"
    then have "\<not> inThinking s0" "\<not> thinkingExtracted s0"
      "\<forall>v \<in> set THINKING_TAG_VARIANTS. \<not> sublist (fst v) (textBuffer s0)"
      by (simp_all add: s0)
    note r = loop_before_no_match [OF this, folded s', unfolded s0(1)]
    show "textBuffer s' = drop (length buf - min (length buf) MAX_OPEN_TAG_LEN) buf"
      by (simp add: r s0)
    show "length (textBuffer s') = min (length buf) MAX_OPEN_TAG_LEN"
      by (simp add: r s0)
    show "text_deltas (stream s') =
           text_deltas (stream s) @ take (length buf - min (length buf) MAX_OPEN_TAG_LEN) buf"
      by (simp add: r s0 emitText_fields)
    show "thinking_deltas (stream s') = thinking_deltas (stream s)"
      by (simp add: r s0 emitText_fields)
  }
  {
    assume a: "inThinking s \<and> \<not> thinkingExtracted s \<and> \<not> sublist (activeEndTag s) buf"
    then have "inThinking s0" "\<not> thinkingExtracted s0"
      "\<not> sublist (activeEndTag s0) (textBuffer s0)"
      by (simp_all add: s0)
    note r = loop_inside_no_match [OF this, folded s', unfolded s0(1)]
    show "textBuffer s' = drop (length buf - min (length buf) MAX_CLOSE_TAG_LEN) buf"
      by (simp add: r s0)
    show "length (textBuffer s') = min (length buf) MAX_CLOSE_TAG_LEN"
      by (simp add: r s0)
    show "thinking_deltas (stream s') =
           thinking_deltas (stream s) @ take (length buf - min (length buf) MAX_CLOSE_TAG_LEN) buf"
      by (simp add: r s0 emitThinking_fields)
    show "text_deltas (stream s') = text_deltas (stream s)"
      by (simp add: r s0 emitThinking_fields)
  }
qed

theorem processChunk_hold_back_witness:
  "textBuffer (processChunk ''Just plain text'' (new_parser [] [])) = '' plain text''
   \<and> text_deltas (stream (processChunk ''Just plain text'' (new_parser [] []))) = ''Just''
   \<and> textBuffer (processChunk ''abcdefghijklmnop'' (processChunk ''<think>'' (new_parser [] [])))
       = ''efghijklmnop''
   \<and> thinking_deltas (stream (processChunk ''abcdefghijklmnop''
         (processChunk ''<think>'' (new_parser [] [])))) = ''abcd''"
proof -
  define p0 where "p0 = new_parser [] []"
  define p1 where "p1 = processChunk ''<think>'' (new_parser [] [])"
  have h0: "\<not> inThinking p0 \<and> \<not> thinkingExtracted p0
      \<and> (\<forall>v \<in> set THINKING_TAG_VARIANTS. \<not> sublist (fst v) (textBuffer p0 @ ''Just plain text''))"
    unfolding p0_def by code_simp
  have h1: "inThinking p1 \<and> \<not> thinkingExtracted p1
      \<and> \<not> sublist (activeEndTag p1) (textBuffer p1 @ ''abcdefghijklmnop'')"
    unfolding p1_def by code_simp
  have v: "textBuffer p0 = []" "stream p0 = []" "textBuffer p1 = []" "stream p1 = []"
    unfolding p0_def p1_def by code_simp+
  from processChunk_hold_back [of p0 "''Just plain text''"] h0
  have "textBuffer (processChunk ''Just plain text'' p0) = '' plain text''
      \<and> text_deltas (stream (processChunk ''Just plain text'' p0)) = ''Just''"
    by (simp add: v MAX_OPEN_TAG_LEN_val)
  moreover from processChunk_hold_back [of p1 "''abcdefghijklmnop''"] h1
  have "textBuffer (processChunk ''abcdefghijklmnop'' p1) = ''efghijklmnop''
      \<and> thinking_deltas (stream (processChunk ''abcdefghijklmnop'' p1)) = ''abcd''"
    by (simp add: v MAX_CLOSE_TAG_LEN_val)
  ultimately show ?thesis unfolding p0_def p1_def by blast
qed

section \<open>The segmenter's finalize\<close>

lemma thinking_ends_append: "thinking_ends (xs @ ys) = thinking_ends xs @ thinking_ends ys"
  by (induction xs rule: thinking_ends.induct) simp_all

lemma emitText_thinking_ends: "thinking_ends (stream (emitText t s)) = thinking_ends (stream s)"
  by (simp add: emitText_def Let_def thinking_ends_append split: option.splits)

text \<open>
  Claim C5 fails on the code. A stream that ends right after an open tag and a short
  thought leaves the parser inside thinking with "abc" buffered and no thinking slot
  opened yet, since nothing exceeded the hold-back. Finalize takes its thinking branch
  only when the slot exists, so it emits "abc" as answer text, in a text block, with no
  thinking delta and no thinking-closed boundary, where buffered thinking text is to be
  flushed as thinking content and its boundary emitted. The same thought followed by its
  close tag opens the slot on the way and is emitted as thinking.
\<close>

theorem finalize_unopened_thinking:
  "inThinking (feed [''<thinking>abc''])
   \<and> textBuffer (feed [''<thinking>abc'']) = ''abc''
   \<and> thinkingBlockIndex (feed [''<thinking>abc'']) = None
   \<and> stream (feed [''<thinking>abc'']) = []
   \<and> stream (finalize (feed [''<thinking>abc''])) = [TextStart 0, TextDelta 0 ''abc'']
   \<and> output_content (finalize (feed [''<thinking>abc''])) = [TextBlock ''abc'']
   \<and> stream (feed [''<thinking>abc</thinking>''])
       = [ThinkingStart 0, ThinkingDelta 0 ''abc'', ThinkingEnd 0 ''abc'']
   \<and> output_content (feed [''<thinking>abc</thinking>'']) = [ThinkingBlock ''abc'']"
  by code_simp

text \<open>
  Where finalize does flush as the specification says, for every parser state with
  non-empty buffered text: inside thinking with the thinking slot opened, the buffered
  text is emitted as a thinking delta followed by the thinking-closed boundary, which
  carries the slot's text with the buffered text appended; outside thinking it is
  flushed as answer text and no thinking delta or thinking-closed boundary is emitted.
  The buffer is empty afterwards.
\<close>

lemma finalize_flush:
  assumes "textBuffer s \<noteq> []"
  shows
  "(inThinking s \<and> thinkingBlockIndex s = Some i \<longrightarrow>
      (\<exists>c. stream (finalize s) = stream s @ [ThinkingDelta i (textBuffer s), ThinkingEnd i c]
        \<and> (i < length (output_content s) \<and> output_content s ! i = ThinkingBlock t
             \<longrightarrow> c = t @ textBuffer s)))
 \<and> (\<not> inThinking s \<longrightarrow>
      text_deltas (stream (finalize s)) = text_deltas (stream s) @ textBuffer s
      \<and> thinking_deltas (stream (finalize s)) = thinking_deltas (stream s)
      \<and> thinking_ends (stream (finalize s)) = thinking_ends (stream s))
 \<and> textBuffer (finalize s) = []"
proof (intro conjI impI)
  assume a: "inThinking s \<and> thinkingBlockIndex s = Some i"
  let ?c = "block_text ((output_content s)[i := add_thinking (output_content s ! i) (textBuffer s)] ! i)"
  have "stream (finalize s) = stream s @ [ThinkingDelta i (textBuffer s), ThinkingEnd i ?c]"
    using assms a by (simp add: finalize_def Let_def)
  moreover have "i < length (output_content s) \<and> output_content s ! i = ThinkingBlock t
      \<longrightarrow> ?c = t @ textBuffer s" by simp
  ultimately show "\<exists>c. stream (finalize s) = stream s @ [ThinkingDelta i (textBuffer s), ThinkingEnd i c]
        \<and> (i < length (output_content s) \<and> output_content s ! i = ThinkingBlock t
             \<longrightarrow> c = t @ textBuffer s)" by blast
next
  assume b: "\<not> inThinking s"
  then have f: "finalize s = (emitText (textBuffer s) s)\<lparr>textBuffer := []\<rparr>"
    using assms by (auto simp: finalize_def split: option.splits bool.splits)
  show "text_deltas (stream (finalize s)) = text_deltas (stream s) @ textBuffer s"
    by (simp add: f emitText_fields)
  show "thinking_deltas (stream (finalize s)) = thinking_deltas (stream s)"
    by (simp add: f emitText_fields)
  show "thinking_ends (stream (finalize s)) = thinking_ends (stream s)"
    by (simp add: f emitText_thinking_ends)
next
  show "textBuffer (finalize s) = []"
    using assms by (simp add: finalize_def Let_def split: option.splits bool.splits)
qed

section \<open>Bracket fallback extractor (bracket-tool-parser.ts)\<close>

text \<open>
  The source finds its anchors with the regular expression
  \<^verbatim>\<open>/\[Called\s+([\w-]+)\s+with\s+args:\s*/g\<close>. White space and name characters
  are disjoint classes and no literal of the pattern starts with either, so a match at a
  position is unique and is found by taking each run as long as it goes: \<open>match_here\<close>
  returns the captured name and the length of the match, \<open>exec\<close> the first match at or
  after \<^verbatim>\<open>lastIndex\<close>. \<open>is_space\<close> is the class \<^verbatim>\<open>\s\<close>, which is also what
  \<^verbatim>\<open>trim\<close> removes, on the characters a \<open>string\<close> holds.
\<close>

definition is_space :: "char \<Rightarrow> bool" where
  "is_space c \<longleftrightarrow> c \<in> set [CHR 0x09, CHR 0x0A, CHR 0x0B, CHR 0x0C, CHR 0x0D, CHR 0x20, CHR 0xA0]"

definition is_name_char :: "char \<Rightarrow> bool" where
  "is_name_char c \<longleftrightarrow>
     c \<in> set (''abcdefghijklmnopqrstuvwxyz'' @ ''ABCDEFGHIJKLMNOPQRSTUVWXYZ'' @ ''0123456789'' @ ''_-'')"

definition trim :: "string \<Rightarrow> string" where
  "trim s = rev (dropWhile is_space (rev (dropWhile is_space s)))"

definition strip_prefix :: "string \<Rightarrow> string \<Rightarrow> string option" where
  "strip_prefix p s = (if prefix p s then Some (drop (length p) s) else None)"

definition match_here :: "string \<Rightarrow> (string \<times> nat) option" where
  "match_here s =
     (case strip_prefix ''[Called'' s of
        None \<Rightarrow> None
      | Some s1 \<Rightarrow>
     (let ws1 = takeWhile is_space s1; s2 = dropWhile is_space s1;
          name = takeWhile is_name_char s2; s3 = dropWhile is_name_char s2;
          ws2 = takeWhile is_space s3; s4 = dropWhile is_space s3
      in if ws1 = [] \<or> name = [] \<or> ws2 = [] then None
         else
     (case strip_prefix ''with'' s4 of
        None \<Rightarrow> None
      | Some s5 \<Rightarrow>
     (let ws3 = takeWhile is_space s5; s6 = dropWhile is_space s5
      in if ws3 = [] then None
         else
     (case strip_prefix ''args:'' s6 of
        None \<Rightarrow> None
      | Some s7 \<Rightarrow>
          Some (name, length s - length (dropWhile is_space s7)))))))"

fun find_match :: "string \<Rightarrow> nat \<Rightarrow> (nat \<times> string \<times> nat) option" where
  "find_match [] i = None"
| "find_match (c # cs) i =
     (case match_here (c # cs) of
        Some (name, len) \<Rightarrow> Some (i, name, len)
      | None \<Rightarrow> find_match cs (Suc i))"

definition exec :: "string \<Rightarrow> nat \<Rightarrow> (nat \<times> string \<times> nat) option" where
  "exec text lastIndex = find_match (drop lastIndex text) lastIndex"

record BracketToolCall =
  btc_toolUseId :: string
  btc_name :: string
  btc_arguments :: json

definition accept_match :: "(string \<Rightarrow> json option) \<Rightarrow> string \<Rightarrow> nat \<Rightarrow> (json \<times> nat) option" where
  "accept_match parse text jsonStart =
     (case indexOf text ''{'' jsonStart of
        None \<Rightarrow> None
      | Some braceIdx \<Rightarrow>
          if braceIdx = jsonStart then
            (case findJsonEnd text braceIdx of
               None \<Rightarrow> None
             | Some jsonEndIdx \<Rightarrow>
                 (case indexOf text '']'' (jsonEndIdx + 1) of
                    None \<Rightarrow> None
                  | Some afterJson \<Rightarrow>
                      if length (trim (substring text (jsonEndIdx + 1) afterJson)) = 0 then
                        (case parse (substring text braceIdx (jsonEndIdx + 1)) of
                           Some args \<Rightarrow> Some (args, afterJson)
                         | None \<Rightarrow> None)
                      else None))
          else None)"

text \<open>
  The text of an anchor, said as a language: the literal, white space, the name, white
  space, "with", white space, "args:", and any white space.
\<close>

definition anchor_text :: "string \<Rightarrow> string \<Rightarrow> bool" where
  "anchor_text name a \<longleftrightarrow>
     (\<exists>ws1 ws2 ws3 ws4.
        a = ''[Called'' @ ws1 @ name @ ws2 @ ''with'' @ ws3 @ ''args:'' @ ws4
        \<and> ws1 \<noteq> [] \<and> ws2 \<noteq> [] \<and> ws3 \<noteq> [] \<and> name \<noteq> []
        \<and> (\<forall>c \<in> set (ws1 @ ws2 @ ws3 @ ws4). is_space c)
        \<and> (\<forall>c \<in> set name. is_name_char c))"


lemma strip_prefix_Some: "strip_prefix p s = Some r \<Longrightarrow> s = p @ r"
  by (auto simp: strip_prefix_def prefix_def split: if_splits)

lemma match_here_shape:
  assumes "match_here s = Some (name, len)"
  shows "len \<le> length s \<and> anchor_text name (take len s)"
proof -
  from assms obtain s1 where s1: "strip_prefix ''[Called'' s = Some s1"
    by (auto simp: match_here_def split: option.splits)
  define ws1 where "ws1 = takeWhile is_space s1"
  define s2 where "s2 = dropWhile is_space s1"
  define nm where "nm = takeWhile is_name_char s2"
  define s3 where "s3 = dropWhile is_name_char s2"
  define ws2 where "ws2 = takeWhile is_space s3"
  define s4 where "s4 = dropWhile is_space s3"
  from assms s1 have ne: "ws1 \<noteq> []" "nm \<noteq> []" "ws2 \<noteq> []"
    by (auto simp: match_here_def Let_def ws1_def s2_def nm_def s3_def ws2_def
        split: option.splits if_splits)
  from assms s1 ne obtain s5 where s5: "strip_prefix ''with'' s4 = Some s5"
    by (auto simp: match_here_def Let_def ws1_def s2_def nm_def s3_def ws2_def s4_def
        split: option.splits if_splits)
  define ws3 where "ws3 = takeWhile is_space s5"
  define s6 where "s6 = dropWhile is_space s5"
  from assms s1 ne s5 have ne3: "ws3 \<noteq> []"
    by (auto simp: match_here_def Let_def ws1_def s2_def nm_def s3_def ws2_def s4_def ws3_def
        split: option.splits if_splits)
  from assms s1 ne s5 ne3 obtain s7 where s7: "strip_prefix ''args:'' s6 = Some s7"
    and res: "name = nm" "len = length s - length (dropWhile is_space s7)"
    by (auto simp: match_here_def Let_def ws1_def s2_def nm_def s3_def ws2_def s4_def ws3_def s6_def
        split: option.splits if_splits)
  define ws4 where "ws4 = takeWhile is_space s7"
  define rest where "rest = dropWhile is_space s7"
  have d1: "s = ''[Called'' @ s1" by (rule strip_prefix_Some [OF s1])
  have d2: "s1 = ws1 @ s2" unfolding ws1_def s2_def by simp
  have d3: "s2 = nm @ s3" unfolding nm_def s3_def by simp
  have d4: "s3 = ws2 @ s4" unfolding ws2_def s4_def by simp
  have d5: "s4 = ''with'' @ s5" by (rule strip_prefix_Some [OF s5])
  have d6: "s5 = ws3 @ s6" unfolding ws3_def s6_def by simp
  have d7: "s6 = ''args:'' @ s7" by (rule strip_prefix_Some [OF s7])
  have d8: "s7 = ws4 @ rest" unfolding ws4_def rest_def by simp
  define a where "a = ''[Called'' @ ws1 @ nm @ ws2 @ ''with'' @ ws3 @ ''args:'' @ ws4"
  have s: "s = a @ rest" unfolding a_def
    by (subst d1, subst d2, subst d3, subst d4, subst d5, subst d6, subst d7, subst d8) simp
  have len: "len = length a" unfolding res(2) rest_def [symmetric] by (subst s) simp
  then have le: "len \<le> length s" by (subst s) simp
  have tk: "take len s = a" unfolding len by (subst s) simp
  have sp: "\<forall>c \<in> set (ws1 @ ws2 @ ws3 @ ws4). is_space c"
    by (auto simp: ws1_def ws2_def ws3_def ws4_def dest: set_takeWhileD)
  have nc: "\<forall>c \<in> set nm. is_name_char c" by (auto simp: nm_def dest: set_takeWhileD)
  have "anchor_text nm a" unfolding anchor_text_def a_def using ne ne3 sp nc by blast
  with le tk res(1) show ?thesis by simp
qed

lemma match_here_pos: "match_here s = Some (name, len) \<Longrightarrow> 0 < len"
proof -
  assume "match_here s = Some (name, len)"
  from match_here_shape [OF this] obtain r where "take len s = ''[Called'' @ r"
    unfolding anchor_text_def by auto
  then show ?thesis by (cases "len = 0") auto
qed

lemma find_match_Some:
  "find_match s i = Some (idx, name, len) \<Longrightarrow>
     i \<le> idx \<and> idx - i \<le> length s \<and> match_here (drop (idx - i) s) = Some (name, len)"
proof (induction s arbitrary: i)
  case Nil
  then show ?case by simp
next
  case (Cons c cs)
  show ?case
  proof (cases "match_here (c # cs)")
    case (Some m)
    with Cons.prems show ?thesis by (cases m) simp
  next
    case None
    with Cons.prems have "find_match cs (Suc i) = Some (idx, name, len)" by simp
    from Cons.IH [OF this] have ih: "Suc i \<le> idx" "idx - Suc i \<le> length cs"
      "match_here (drop (idx - Suc i) cs) = Some (name, len)" by auto
    have "idx - i = Suc (idx - Suc i)" using ih(1) by arith
    with ih show ?thesis by simp
  qed
qed

lemma exec_Some:
  assumes "exec text lastIndex = Some (idx, name, len)"
  shows "lastIndex \<le> idx \<and> idx + len \<le> length text \<and> 0 < len
         \<and> anchor_text name (substring text idx (idx + len))"
proof -
  have li: "lastIndex \<le> length text"
  proof (rule ccontr)
    assume "\<not> lastIndex \<le> length text"
    then have "drop lastIndex text = []" by simp
    with assms show False by (simp add: exec_def)
  qed
  from find_match_Some [OF assms [unfolded exec_def]]
  have f: "lastIndex \<le> idx" "idx - lastIndex \<le> length text - lastIndex"
    "match_here (drop (idx - lastIndex) (drop lastIndex text)) = Some (name, len)" by auto
  have e: "idx - lastIndex + lastIndex = idx" using f(1) by simp
  have m: "match_here (drop idx text) = Some (name, len)" using f(3) unfolding drop_drop e .
  from match_here_shape [OF m] have "len \<le> length text - idx"
    "anchor_text name (take len (drop idx text))" by simp_all
  moreover have "idx \<le> length text" using f(1,2) li by arith
  ultimately show ?thesis using f(1) match_here_pos [OF m] by (simp add: substring_def)
qed

text \<open>
  The loop over the matches. \<^verbatim>\<open>crypto.randomUUID\<close> is a parameter: the identifier
  of the call recorded when \<open>n\<close> calls have been recorded before it.
\<close>

function bracket_loop ::
  "(string \<Rightarrow> json option) \<Rightarrow> (nat \<Rightarrow> string) \<Rightarrow> string \<Rightarrow> nat
     \<Rightarrow> BracketToolCall list \<Rightarrow> (nat \<times> nat) list
     \<Rightarrow> BracketToolCall list \<times> (nat \<times> nat) list" where
  "bracket_loop parse randomUUID text lastIndex toolCalls removals =
     (case exec text lastIndex of
        None \<Rightarrow> (toolCalls, removals)
      | Some (index, name, len) \<Rightarrow>
          (case accept_match parse text (index + len) of
             Some (args, afterJson) \<Rightarrow>
               bracket_loop parse randomUUID text (index + len)
                 (toolCalls @ [\<lparr>btc_toolUseId = randomUUID (length toolCalls),
                                btc_name = name, btc_arguments = args\<rparr>])
                 (removals @ [(index, afterJson + 1)])
           | None \<Rightarrow> bracket_loop parse randomUUID text (index + len) toolCalls removals))"
  by pat_completeness auto

termination
  by (relation "measure (\<lambda>(parse, randomUUID, text, lastIndex, toolCalls, removals).
                   Suc (length text) - lastIndex)")
     (auto dest!: exec_Some)

declare bracket_loop.simps [simp del]

record BracketParseResult =
  bpr_toolCalls :: "BracketToolCall list"
  bpr_cleanedText :: string

definition remove_ranges :: "(nat \<times> nat) list \<Rightarrow> string \<Rightarrow> string" where
  "remove_ranges removals text =
     foldr (\<lambda>(start, en) cleanedText. substring cleanedText 0 start @ drop en cleanedText)
       removals text"

definition parseBracketToolCalls ::
  "(string \<Rightarrow> json option) \<Rightarrow> (nat \<Rightarrow> string) \<Rightarrow> string \<Rightarrow> BracketParseResult" where
  "parseBracketToolCalls parse randomUUID text =
     (case bracket_loop parse randomUUID text 0 [] [] of
        (toolCalls, removals) \<Rightarrow>
          \<lparr>bpr_toolCalls = toolCalls, bpr_cleanedText = remove_ranges removals text\<rparr>)"

section \<open>What the bracket extractor records\<close>

text \<open>
  The conditions of acceptance, said on the positions of the text: the character at the
  end of the anchor is the opening brace, the text that starts there has its balanced
  end at \<open>e\<close>, a closing bracket stands at some \<open>r\<close> after \<open>e\<close> with only white
  space in between, and the text from the brace to \<open>e\<close> parses.
\<close>

definition accepted_at :: "(string \<Rightarrow> json option) \<Rightarrow> string \<Rightarrow> nat \<Rightarrow> json \<Rightarrow> bool" where
  "accepted_at parse text jsonStart args \<longleftrightarrow>
     (\<exists>e r. jsonStart < length text \<and> text ! jsonStart = CHR ''{''
        \<and> balanced_end text jsonStart e
        \<and> e < r \<and> r < length text \<and> text ! r = CHR '']''
        \<and> (\<forall>k. e < k \<and> k < r \<longrightarrow> is_space (text ! k))
        \<and> parse (substring text jsonStart (e + 1)) = Some args)"

definition recorded_from :: "(string \<Rightarrow> json option) \<Rightarrow> string \<Rightarrow> BracketToolCall \<Rightarrow> bool" where
  "recorded_from parse text tc \<longleftrightarrow>
     (\<exists>index jsonStart. index \<le> jsonStart
        \<and> anchor_text (btc_name tc) (substring text index jsonStart)
        \<and> accepted_at parse text jsonStart (btc_arguments tc))"

lemma trim_empty: "trim s = [] \<longleftrightarrow> (\<forall>c \<in> set s. is_space c)"
proof
  assume "trim s = []"
  then have "dropWhile is_space (rev (dropWhile is_space s)) = []" by (simp add: trim_def)
  then have "\<forall>c \<in> set (rev (dropWhile is_space s)). is_space c"
    unfolding dropWhile_eq_Nil_conv .
  then have a: "\<forall>c \<in> set (dropWhile is_space s). is_space c" by simp
  have "dropWhile is_space s = []"
  proof (rule ccontr)
    assume n: "dropWhile is_space s \<noteq> []"
    then have "\<not> is_space (hd (dropWhile is_space s))" by (rule hd_dropWhile)
    moreover have "hd (dropWhile is_space s) \<in> set (dropWhile is_space s)"
      using n by (rule hd_in_set)
    ultimately show False using a by blast
  qed
  then show "\<forall>c \<in> set s. is_space c" unfolding dropWhile_eq_Nil_conv .
next
  assume "\<forall>c \<in> set s. is_space c"
  then have d: "dropWhile is_space s = []" unfolding dropWhile_eq_Nil_conv .
  show "trim s = []" unfolding trim_def d by simp
qed

lemma indexOf_char:
  assumes "indexOf s [c] from = Some k"
  shows "from \<le> k \<and> k < length s \<and> s ! k = c"
proof -
  have fl: "from \<le> length s"
  proof (rule ccontr)
    assume "\<not> from \<le> length s"
    then have "drop from s = []" by simp
    with assms show False by (simp add: indexOf_def)
  qed
  from indexOf_Some [OF assms fl] have k: "from \<le> k" "prefix [c] (drop k s)" by auto
  from k(2) have "drop k s \<noteq> []" by auto
  then have kl: "k < length s" by simp
  from k(2) obtain r where "drop k s = c # r" by (auto simp: prefix_def)
  then have "s ! k = c" using kl by (metis Cons_nth_drop_Suc list.inject)
  with k(1) kl show ?thesis by simp
qed

lemma accept_match_accepted:
  assumes "accept_match parse text jsonStart = Some (args, afterJson)"
  shows "accepted_at parse text jsonStart args"
proof -
  from assms have b: "indexOf text ''{'' jsonStart = Some jsonStart"
    by (auto simp: accept_match_def split: option.splits if_splits)
  with assms obtain e where e: "findJsonEnd text jsonStart = Some e"
    by (auto simp: accept_match_def split: option.splits if_splits)
  with assms b have r: "indexOf text '']'' (e + 1) = Some afterJson"
    and tr: "trim (substring text (e + 1) afterJson) = []"
    and p: "parse (substring text jsonStart (e + 1)) = Some args"
    by (auto simp: accept_match_def split: option.splits if_splits)
  from indexOf_char [OF b] have j: "jsonStart < length text" "text ! jsonStart = CHR ''{''" by auto
  from indexOf_char [OF r] have a: "e + 1 \<le> afterJson" "afterJson < length text"
    "text ! afterJson = CHR '']''" by auto
  have "is_space (text ! k)" if k: "e < k" "k < afterJson" for k
  proof -
    have "text ! k = substring text (e + 1) afterJson ! (k - (e + 1))"
      using k a(2) by (simp add: substring_def)
    moreover have "k - (e + 1) < length (substring text (e + 1) afterJson)"
      using k a(2) by (simp add: substring_def)
    ultimately have "text ! k \<in> set (substring text (e + 1) afterJson)"
      by (metis nth_mem)
    with tr show ?thesis by (simp add: trim_empty)
  qed
  with j findJsonEnd_Some [OF e] a p show ?thesis unfolding accepted_at_def
    by (intro exI [of _ e] exI [of _ afterJson]) auto
qed

lemma recorded_fromI:
  assumes "exec text lastIndex = Some (index, name, len)"
    and "accept_match parse text (index + len) = Some (args, afterJson)"
  shows "recorded_from parse text \<lparr>btc_toolUseId = u, btc_name = name, btc_arguments = args\<rparr>"
  using exec_Some [OF assms(1)] accept_match_accepted [OF assms(2)]
  unfolding recorded_from_def
  by (intro exI [of _ index] exI [of _ "index + len"]) simp

lemma bracket_loop_inv:
  "bracket_loop parse randomUUID src lastIndex toolCalls removals = (tcs, rems)
   \<Longrightarrow> \<forall>tc \<in> set toolCalls. recorded_from parse src tc
   \<Longrightarrow> length toolCalls = length removals
   \<Longrightarrow> (\<forall>tc \<in> set tcs. recorded_from parse src tc) \<and> length tcs = length rems"
proof (induction parse randomUUID src lastIndex toolCalls removals rule: bracket_loop.induct)
  case (1 parse randomUUID src lastIndex toolCalls removals)
  show ?case
  proof (cases "exec src lastIndex")
    case None
    with "1.prems" show ?thesis by (simp add: bracket_loop.simps)
  next
    case (Some m)
    obtain index name len where m: "m = (index, name, len)" by (cases m) auto
    note ex = Some [unfolded m]
    show ?thesis
    proof (cases "accept_match parse src (index + len)")
      case None
      from "1.prems"(1) ex None
      have "bracket_loop parse randomUUID src (index + len) toolCalls removals = (tcs, rems)"
        by (simp add: bracket_loop.simps [of _ _ src lastIndex])
      from "1.IH"(1) [OF ex refl refl None this "1.prems"(2,3)] show ?thesis .
    next
      case (Some a)
      obtain args afterJson where a: "a = (args, afterJson)" by (cases a) auto
      note ac = Some [unfolded a]
      let ?tc = "\<lparr>btc_toolUseId = randomUUID (length toolCalls), btc_name = name,
                   btc_arguments = args\<rparr>"
      from "1.prems"(1) ex ac
      have "bracket_loop parse randomUUID src (index + len) (toolCalls @ [?tc])
              (removals @ [(index, afterJson + 1)]) = (tcs, rems)"
        by (simp add: bracket_loop.simps [of _ _ src lastIndex])
      moreover have "\<forall>tc \<in> set (toolCalls @ [?tc]). recorded_from parse src tc"
        using "1.prems"(2) recorded_fromI [OF ex ac] by auto
      moreover have "length (toolCalls @ [?tc]) = length (removals @ [(index, afterJson + 1)])"
        using "1.prems"(3) by simp
      ultimately show ?thesis using "1.IH"(2) [OF ex refl refl ac refl] by blast
    qed
  qed
qed

text \<open>
  What the extractor records, for every input text: every recorded tool call comes from
  an anchor \<^verbatim>\<open>[Called <name> with args: \<close> whose end is exactly where the opening
  brace stands, whose brace-balanced text parses, and whose closing brace is separated
  from the following closing bracket by white space only; the call carries the anchor's
  name and the parsed arguments. A rejected match records no removal, so when no call
  is recorded the cleaned text is the input text.
\<close>

lemma parseBracketToolCalls_records:
  "(\<forall>tc \<in> set (bpr_toolCalls (parseBracketToolCalls parse randomUUID text)).
      recorded_from parse text tc)
   \<and> (bpr_toolCalls (parseBracketToolCalls parse randomUUID text) = []
        \<longrightarrow> bpr_cleanedText (parseBracketToolCalls parse randomUUID text) = text)"
proof -
  obtain tcs rems where l: "bracket_loop parse randomUUID text 0 [] [] = (tcs, rems)"
    by (cases "bracket_loop parse randomUUID text 0 [] []") auto
  from bracket_loop_inv [OF l] have i: "\<forall>tc \<in> set tcs. recorded_from parse text tc"
    "length tcs = length rems" by simp_all
  have r: "parseBracketToolCalls parse randomUUID text
      = \<lparr>bpr_toolCalls = tcs, bpr_cleanedText = remove_ranges rems text\<rparr>"
    by (simp add: parseBracketToolCalls_def l)
  have "tcs = [] \<longrightarrow> remove_ranges rems text = text"
    using i(2) by (auto simp: remove_ranges_def)
  then show ?thesis using i(1) by (simp add: r)
qed

text \<open>Identifiers for the examples: distinct for distinct calls.\<close>

definition sample_randomUUID :: "nat \<Rightarrow> string" where
  "sample_randomUUID n = ''id-'' @ replicate n (CHR ''i'')"

lemma parseBracketToolCalls_examples:
  "parseBracketToolCalls sample_parse sample_randomUUID
      ''Some text [Called bash with args: {}] more text''
     = \<lparr>bpr_toolCalls = [\<lparr>btc_toolUseId = ''id-'', btc_name = ''bash'', btc_arguments = JObject []\<rparr>],
        bpr_cleanedText = ''Some text  more text''\<rparr>
   \<and> parseBracketToolCalls sample_parse sample_randomUUID
      ''[Called bash with args: {not valid json}] rest''
     = \<lparr>bpr_toolCalls = [], bpr_cleanedText = ''[Called bash with args: {not valid json}] rest''\<rparr>"
  by code_simp

text \<open>
  A text with three matches: a call \<open>a\<close> whose arguments hold, inside a string, the
  text of a call \<open>b\<close>, followed by a call \<open>c\<close> whose arguments are not JSON.
\<close>

definition nested_text :: string where
  "nested_text = ''[Called a with args: '' @ nested_call @ ''] [Called c with args: {bad}] end''"

text \<open>
  Claim C8 fails on the code. The search for the next match resumes at the end of the
  anchor, not after the accepted call, so in \<open>nested_text\<close> the call \<open>b\<close> inside the
  arguments of \<open>a\<close> is matched and accepted too, and its range, 27 to 51, lies inside
  the range of \<open>a\<close>, 0 to 54. The ranges are removed back to front with the offsets
  they had in the input: once the 24 characters of \<open>b\<close> are gone, removing 0 to 54
  takes 24 characters too many. The match \<open>c\<close> is rejected, its arguments do not
  parse, and its text is to stay as it is, so that the cleaned text is
  \<^verbatim>\<open> [Called c with args: {bad}] end\<close>; the extractor returns \<^verbatim>\<open>ad}] end\<close>.
\<close>

theorem parseBracketToolCalls_nested:
  "parseBracketToolCalls sample_parse sample_randomUUID nested_text
     = \<lparr>bpr_toolCalls =
          [\<lparr>btc_toolUseId = ''id-'', btc_name = ''a'',
            btc_arguments = JObject [(''x'', JString ''[Called b with args: {}]'')]\<rparr>,
           \<lparr>btc_toolUseId = ''id-i'', btc_name = ''b'', btc_arguments = JObject []\<rparr>],
        bpr_cleanedText = ''ad}] end''\<rparr>
   \<and> bracket_loop sample_parse sample_randomUUID nested_text 0 [] []
     = ([\<lparr>btc_toolUseId = ''id-'', btc_name = ''a'',
           btc_arguments = JObject [(''x'', JString ''[Called b with args: {}]'')]\<rparr>,
          \<lparr>btc_toolUseId = ''id-i'', btc_name = ''b'', btc_arguments = JObject []\<rparr>],
         [(0, 54), (27, 51)])
   \<and> exec nested_text 48 = Some (55, ''c'', 21)
   \<and> accept_match sample_parse nested_text 76 = None
   \<and> drop 54 nested_text = '' [Called c with args: {bad}] end''"
  by code_simp

section \<open>Stream orchestrator (stream.ts, streamKiro)\<close>

text \<open>
  The events the read loop handles, at the types \<^verbatim>\<open>KiroStreamEvent\<close> declares for
  their payloads (the classifier's casts are taken at their word), and the locals of one
  attempt. The output message and the event stream live across attempts; they are the
  two first fields of \<open>shared\<close>, which is also the state of the thinking parser when
  thinking is enabled. The token counts and the cost written to the output message are
  not recorded; what the accounting can do to the outcome, fail while the answer text is
  counted, is part of finalizing below.
\<close>

datatype KiroEvent =
    EContent string
  | EToolUse string string string "bool option"
  | EToolUseInput string
  | EToolUseStop bool
  | EContextUsage rat
  | EFollowupPrompt string
  | EUsage "nat option" "nat option"

record KiroToolCallState =
  tc_toolUseId :: string
  tc_name :: string
  tc_input :: string

record Attempt =
  shared :: ParserState
  totalContent :: string
  lastContentData :: string
  usageEvent :: "(nat option \<times> nat option) option"
  receivedContextUsage :: bool
  textBlockIdx :: "nat option"
  toolCalls :: "KiroToolCallState list"
  currentToolCall :: "KiroToolCallState option"

definition new_attempt :: "ContentBlock list \<Rightarrow> AssistantMessageEvent list \<Rightarrow> Attempt" where
  "new_attempt output strm =
     \<lparr>shared = new_parser output strm, totalContent = [], lastContentData = [],
      usageEvent = None, receivedContextUsage = False, textBlockIdx = None,
      toolCalls = [], currentToolCall = None\<rparr>"

definition push_text :: "string \<Rightarrow> Attempt \<Rightarrow> Attempt" where
  "push_text data a =
     (let a1 = (case textBlockIdx a of
                  None \<Rightarrow>
                    a\<lparr>textBlockIdx := Some (length (output_content (shared a))),
                      shared := (shared a)
                        \<lparr>output_content := output_content (shared a) @ [TextBlock []],
                         stream := stream (shared a)
                           @ [TextStart (length (output_content (shared a)))]\<rparr>\<rparr>
                | Some i \<Rightarrow> a);
          idx = the (textBlockIdx a1);
          s = shared a1
      in a1\<lparr>shared := s\<lparr>output_content := (output_content s)[idx := add_text (output_content s ! idx) data],
                           stream := stream s @ [TextDelta idx data]\<rparr>\<rparr>)"

definition handleToolUse :: "string \<Rightarrow> string \<Rightarrow> string \<Rightarrow> bool option \<Rightarrow> Attempt \<Rightarrow> Attempt" where
  "handleToolUse name toolUseId input stop a =
     (let a1 = (case currentToolCall a of
                  Some c \<Rightarrow>
                    if tc_toolUseId c = toolUseId
                    then a\<lparr>currentToolCall := Some (c\<lparr>tc_input := tc_input c @ input\<rparr>)\<rparr>
                    else a\<lparr>toolCalls := toolCalls a @ [c],
                           currentToolCall :=
                             Some \<lparr>tc_toolUseId = toolUseId, tc_name = name, tc_input = input\<rparr>\<rparr>
                | None \<Rightarrow>
                    a\<lparr>currentToolCall :=
                        Some \<lparr>tc_toolUseId = toolUseId, tc_name = name, tc_input = input\<rparr>\<rparr>)
      in case currentToolCall a1 of
           Some c \<Rightarrow>
             if stop = Some True
             then a1\<lparr>toolCalls := toolCalls a1 @ [c], currentToolCall := None\<rparr>
             else a1
         | None \<Rightarrow> a1)"

fun handleEvent :: "bool \<Rightarrow> Attempt \<Rightarrow> KiroEvent \<Rightarrow> Attempt" where
  "handleEvent thinkingEnabled a (EContextUsage pct) = a\<lparr>receivedContextUsage := True\<rparr>"
| "handleEvent thinkingEnabled a (EContent data) =
     (if data = lastContentData a then a
      else
        (let a1 = a\<lparr>lastContentData := data, totalContent := totalContent a @ data\<rparr>
         in if thinkingEnabled then a1\<lparr>shared := processChunk data (shared a1)\<rparr>
            else push_text data a1))"
| "handleEvent thinkingEnabled a (EToolUse name toolUseId input stop) =
     handleToolUse name toolUseId input stop a"
| "handleEvent thinkingEnabled a (EToolUseInput input) =
     (case currentToolCall a of
        Some c \<Rightarrow> a\<lparr>currentToolCall := Some (c\<lparr>tc_input := tc_input c @ input\<rparr>)\<rparr>
      | None \<Rightarrow> a)"
| "handleEvent thinkingEnabled a (EToolUseStop stop) =
     (case currentToolCall a of
        Some c \<Rightarrow> if stop then a\<lparr>toolCalls := toolCalls a @ [c], currentToolCall := None\<rparr> else a
      | None \<Rightarrow> a)"
| "handleEvent thinkingEnabled a (EUsage inputTokens outputTokens) =
     a\<lparr>usageEvent := Some (inputTokens, outputTokens)\<rparr>"
| "handleEvent thinkingEnabled a (EFollowupPrompt p) = a"

definition handleEvents :: "bool \<Rightarrow> Attempt \<Rightarrow> KiroEvent list \<Rightarrow> Attempt" where
  "handleEvents thinkingEnabled a events = foldl (handleEvent thinkingEnabled) a events"

definition readChunks :: "bool \<Rightarrow> Attempt \<Rightarrow> KiroEvent list list \<Rightarrow> Attempt" where
  "readChunks thinkingEnabled a chunks = foldl (handleEvents thinkingEnabled) a chunks"

text \<open>
  The tokenizer (tokenizer.ts): an empty text has no tokens and is not handed to the
  encoder. \<open>encodedLength\<close> stands for \<^verbatim>\<open>getEncoder().encode(text).length\<close> of
  the encoding library, \<open>None\<close> where loading the encoder or encoding throws.
\<close>

definition countTokens :: "(string \<Rightarrow> nat option) \<Rightarrow> string \<Rightarrow> nat option" where
  "countTokens encodedLength text = (if length text = 0 then Some 0 else encodedLength text)"

text \<open>
  Finalizing a completed attempt: the open tool call is archived, the parser flushed,
  the bracket fallback tried when no tool call was assembled, the text block closed, the
  tool calls with blank or unparseable input skipped and the others emitted, the tokens
  accounted for, and the stop reason chosen. Without a usage event the answer text is
  counted, and when the count throws the attempt ends there, in the failure handler,
  with the events pushed so far and no done event: the result then carries no stop
  reason.
\<close>

definition emitToolCall ::
  "(string \<Rightarrow> json option) \<Rightarrow> ParserState \<Rightarrow> KiroToolCallState \<Rightarrow> ParserState" where
  "emitToolCall parse s tc =
     (if trim (tc_input tc) = [] then s
      else
        (case parse (tc_input tc) of
           None \<Rightarrow> s
         | Some args \<Rightarrow>
             (let idx = length (output_content s);
                  toolCall = ToolCallBlock (tc_toolUseId tc) (tc_name tc) args
              in s\<lparr>output_content := output_content s @ [toolCall],
                   stream := stream s @ [ToolcallStart idx, ToolcallDelta idx (tc_input tc),
                                         ToolcallEnd idx toolCall]\<rparr>)))"

definition bracketFallback ::
  "(string \<Rightarrow> json option) \<Rightarrow> (json \<Rightarrow> string) \<Rightarrow> (nat \<Rightarrow> string) \<Rightarrow> nat option
     \<Rightarrow> ParserState \<times> KiroToolCallState list \<Rightarrow> ParserState \<times> KiroToolCallState list" where
  "bracketFallback parse stringify randomUUID tbi st =
     (case st of (s, calls) \<Rightarrow>
        (case tbi of
           Some idx \<Rightarrow>
             if length calls = 0 then
               (let bracketResult =
                      parseBracketToolCalls parse randomUUID (block_text (output_content s ! idx))
                in if length (bpr_toolCalls bracketResult) > 0
                   then (s\<lparr>output_content :=
                            (output_content s)[idx := TextBlock (bpr_cleanedText bracketResult)]\<rparr>,
                         map (\<lambda>btc. \<lparr>tc_toolUseId = btc_toolUseId btc, tc_name = btc_name btc,
                                      tc_input = stringify (btc_arguments btc)\<rparr>)
                           (bpr_toolCalls bracketResult))
                   else (s, calls))
             else (s, calls)
         | None \<Rightarrow> (s, calls)))"

definition finishAttempt ::
  "(string \<Rightarrow> json option) \<Rightarrow> (json \<Rightarrow> string) \<Rightarrow> (nat \<Rightarrow> string)
     \<Rightarrow> (string \<Rightarrow> nat option) \<Rightarrow> bool \<Rightarrow> Attempt \<Rightarrow> ParserState \<times> StopReason option" where
  "finishAttempt parse stringify randomUUID encodedLength thinkingEnabled a =
     (let calls0 = (case currentToolCall a of Some c \<Rightarrow> toolCalls a @ [c] | None \<Rightarrow> toolCalls a);
          s0 = (if thinkingEnabled then finalize (shared a) else shared a);
          tbi = (if thinkingEnabled then textBlockIndex s0 else textBlockIdx a);
          (s1, calls) = bracketFallback parse stringify randomUUID tbi (s0, calls0);
          s2 = (case tbi of
                  Some idx \<Rightarrow> s1\<lparr>stream := stream s1 @ [TextEnd idx (block_text (output_content s1 ! idx))]\<rparr>
                | None \<Rightarrow> s1);
          s3 = foldl (emitToolCall parse) s2 calls;
          outputTokens = (case usageEvent a of
                            Some u \<Rightarrow> Some (snd u)
                          | None \<Rightarrow> map_option Some (countTokens encodedLength (totalContent a)));
          stopReason = (if \<not> receivedContextUsage a \<and> length calls = 0 then Length
                        else if length calls > 0 then ToolUseReason else Stop)
      in case outputTokens of
           None \<Rightarrow> (s3, None)
         | Some n \<Rightarrow> (s3\<lparr>stream := stream s3 @ [Done stopReason]\<rparr>, Some stopReason))"

text \<open>
  The attempt loop. What the network does is an input: the response to the \<open>n\<close>-th
  request is a rejected fetch, a status that is not ok with its body text, a response
  without body, a first read that loses the race against the first-token deadline, or
  a body, given as the events decoded from each chunk (the remainder the scanner carries
  from one chunk to the next included) and the way the reading ended. Request building,
  delays and the reduction factor, which only shapes the next request, are left out.
  \<open>aborted\<close> is the state of the cancellation signal when the failure handler reads it,
  \<open>encodedLength\<close> what the encoding library does.
  The outcome records the output message, the events pushed, the stop reason set, and
  how many requests were made.
\<close>

datatype Ending = Completed | IdleCancelled | ReadFailed

datatype Response =
    FetchFailed
  | HttpError int string
  | NoBody
  | FirstTokenTimedOut
  | Body "KiroEvent list list" Ending

record Call =
  apiKey :: bool
  thinkingEnabled :: bool
  aborted :: bool
  responses :: "nat \<Rightarrow> Response"
  encodedLength :: "string \<Rightarrow> nat option"

record Outcome =
  message :: "ContentBlock list"
  pushed :: "AssistantMessageEvent list"
  stopReason :: "StopReason option"
  fetches :: nat

definition maxRetries :: nat where
  "maxRetries = 3"

definition failed :: "Call \<Rightarrow> ParserState \<Rightarrow> nat \<Rightarrow> Outcome" where
  "failed c s n =
     (let reason = (if aborted c then Aborted else ErrorReason)
      in \<lparr>message = output_content s, pushed = stream s @ [Error reason],
          stopReason = Some reason, fetches = n\<rparr>)"

function attempts ::
  "(string \<Rightarrow> json option) \<Rightarrow> (json \<Rightarrow> string) \<Rightarrow> (nat \<Rightarrow> string) \<Rightarrow> Call
     \<Rightarrow> nat \<Rightarrow> ParserState \<Rightarrow> nat \<Rightarrow> Outcome" where
  "attempts parse stringify randomUUID c retryCount s n =
     (if retryCount \<le> maxRetries then
        (case responses c n of
           FetchFailed \<Rightarrow> failed c s (Suc n)
         | HttpError status errText \<Rightarrow>
             if shouldRetry (decideRetry status errText retryCount maxRetries)
             then attempts parse stringify randomUUID c (retryCount + 1) s (Suc n)
             else failed c s (Suc n)
         | NoBody \<Rightarrow> failed c (s\<lparr>stream := stream s @ [Start]\<rparr>) (Suc n)
         | FirstTokenTimedOut \<Rightarrow>
             if retryCount < maxRetries
             then attempts parse stringify randomUUID c (retryCount + 1)
                    (s\<lparr>stream := stream s @ [Start]\<rparr>) (Suc n)
             else failed c (s\<lparr>stream := stream s @ [Start]\<rparr>) (Suc n)
         | Body chunks ending \<Rightarrow>
             (let a = readChunks (thinkingEnabled c)
                        (new_attempt (output_content s) (stream s @ [Start]))
                        chunks
              in case ending of
                   ReadFailed \<Rightarrow> failed c (shared a) (Suc n)
                 | IdleCancelled \<Rightarrow>
                     if retryCount < maxRetries
                     then attempts parse stringify randomUUID c (retryCount + 1) (shared a) (Suc n)
                     else failed c (shared a) (Suc n)
                 | Completed \<Rightarrow>
                     (case finishAttempt parse stringify randomUUID (encodedLength c)
                             (thinkingEnabled c) a of
                        (s', Some reason) \<Rightarrow>
                          \<lparr>message = output_content s', pushed = stream s',
                           stopReason = Some reason, fetches = Suc n\<rparr>
                      | (s', None) \<Rightarrow> failed c s' (Suc n))))
      else \<lparr>message = output_content s, pushed = stream s, stopReason = None, fetches = n\<rparr>)"
  by pat_completeness auto
termination
  by (relation "measure (\<lambda>(parse, stringify, randomUUID, c, retryCount, s, n).
                  Suc maxRetries - retryCount)") auto

declare attempts.simps [simp del]

definition streamKiro ::
  "(string \<Rightarrow> json option) \<Rightarrow> (json \<Rightarrow> string) \<Rightarrow> (nat \<Rightarrow> string) \<Rightarrow> Call \<Rightarrow> Outcome" where
  "streamKiro parse stringify randomUUID c =
     (if \<not> apiKey c then failed c (new_parser [] []) 0
      else attempts parse stringify randomUUID c 0 (new_parser [] []) 0)"


fun is_content :: "KiroEvent \<Rightarrow> bool" where
  "is_content (EContent d) = True"
| "is_content e = False"

text \<open>
  Calls for the examples: credentials present, no cancellation, an encoder that works
  and gives one token for every four characters begun; a service that always answers
  429; and a body with one tool call whose input is empty, followed by a context-usage
  event.
\<close>

definition sample_encodedLength :: "string \<Rightarrow> nat option" where
  "sample_encodedLength s = Some ((length s + 3) div 4)"

definition call_of :: "bool \<Rightarrow> (nat \<Rightarrow> Response) \<Rightarrow> Call" where
  "call_of th rs = \<lparr>apiKey = True, thinkingEnabled = th, aborted = False, responses = rs,
                    encodedLength = sample_encodedLength\<rparr>"

definition always_429 :: "nat \<Rightarrow> Response" where
  "always_429 n = HttpError 429 ''Rate limited''"

definition empty_tool_input :: "nat \<Rightarrow> Response" where
  "empty_tool_input n = Body [[EToolUse ''bash'' ''tc1'' [] (Some True), EContextUsage 10]] Completed"

text \<open>
  A short answer with a context-usage event and no usage event: it ends with the done
  event and stop reason \<open>stop\<close> when the encoder works, and with the error event,
  after the text block was closed, when the encoder throws.
\<close>

definition short_answer :: "nat \<Rightarrow> Response" where
  "short_answer n = Body [[EContent ''hi'', EContextUsage 10]] Completed"

lemma streamKiro_short_answer:
  "streamKiro sample_parse sample_stringify sample_randomUUID (call_of False short_answer)
     = \<lparr>message = [TextBlock ''hi''],
        pushed = [Start, TextStart 0, TextDelta 0 ''hi'', TextEnd 0 ''hi'', Done Stop],
        stopReason = Some Stop, fetches = 1\<rparr>
   \<and> streamKiro sample_parse sample_stringify sample_randomUUID
       ((call_of False short_answer)\<lparr>encodedLength := (\<lambda>s. None)\<rparr>)
     = \<lparr>message = [TextBlock ''hi''],
        pushed = [Start, TextStart 0, TextDelta 0 ''hi'', TextEnd 0 ''hi'', Error ErrorReason],
        stopReason = Some ErrorReason, fetches = 1\<rparr>"
  by code_simp

section \<open>Content deduplication\<close>










lemma handleEvent_keeps_last:
  "\<not> is_content e \<Longrightarrow> lastContentData (handleEvent th a e) = lastContentData a"
  by (cases e) (simp_all add: handleToolUse_def Let_def split: option.splits)

lemma handleEvents_keeps_last:
  "\<forall>e \<in> set pre. \<not> is_content e
   \<Longrightarrow> lastContentData (foldl (handleEvent th) a pre) = lastContentData a"
  by (induction pre arbitrary: a) (simp_all add: handleEvent_keeps_last)

text \<open>
  Claim C10. When the first content fragment of an attempt carries the empty string, the
  attempt's state after it is the state before it: no text slot is opened, no delta is
  pushed, nothing is added to the counted answer text, whether thinking is enabled or not.
\<close>

theorem leading_empty_content_dropped:
  assumes "\<forall>e \<in> set pre. \<not> is_content e"
  shows "handleEvents th (new_attempt output strm) (pre @ [EContent []])
     = handleEvents th (new_attempt output strm) pre"
proof -
  have "lastContentData (foldl (handleEvent th) (new_attempt output strm) pre) = []"
    using handleEvents_keeps_last [OF assms] by (simp add: new_attempt_def)
  then show ?thesis by (simp add: handleEvents_def)
qed

theorem leading_empty_content_dropped_witness:
  "handleEvents False (new_attempt [] [Start]) ([EUsage (Some 1) None] @ [EContent []])
     = handleEvents False (new_attempt [] [Start]) [EUsage (Some 1) None]
   \<and> textBlockIdx (handleEvents False (new_attempt [] [Start]) ([EUsage (Some 1) None] @ [EContent []]))
     = None
   \<and> stream (shared (handleEvents False (new_attempt [] [Start])
        ([EUsage (Some 1) None] @ [EContent []]))) = [Start]
   \<and> totalContent (handleEvents False (new_attempt [] [Start]) ([EUsage (Some 1) None] @ [EContent []]))
     = []"
  using leading_empty_content_dropped [of "[EUsage (Some 1) None]" False "[]" "[Start]"]
  by (simp add: handleEvents_def new_attempt_def new_parser_def)

section \<open>The retry budget\<close>

lemma attempts_429:
  assumes "\<forall>n. \<exists>errText. responses c n = HttpError 429 errText"
  shows "retryCount \<le> maxRetries \<Longrightarrow> maxRetries - retryCount = m
     \<Longrightarrow> attempts parse stringify randomUUID c retryCount s n = failed c s (n + m + 1)"
proof (induction m arbitrary: retryCount n)
  case 0
  then have r: "retryCount = maxRetries" by simp
  from assms obtain errText where e: "responses c n = HttpError 429 errText" by blast
  show ?case
    by (subst attempts.simps) (simp add: r e decideRetry_def)
next
  case (Suc m)
  then have r: "retryCount < maxRetries" "retryCount + 1 \<le> maxRetries"
    "maxRetries - (retryCount + 1) = m" by simp_all
  from assms obtain errText where e: "responses c n = HttpError 429 errText" by blast
  have "attempts parse stringify randomUUID c retryCount s n
      = attempts parse stringify randomUUID c (retryCount + 1) s (Suc n)"
    using r(1) by (subst attempts.simps) (simp add: e decideRetry_def)
  also have "\<dots> = failed c s (Suc n + m + 1)" by (rule Suc.IH [OF r(2,3)])
  finally show ?case by simp
qed

text \<open>
  Claim C9. With credentials present and no cancellation, when every response has status
  429 the orchestrator makes exactly \<open>maxRetries + 1\<close> requests, four with the budget of
  three retries, and then pushes a single event, the terminal error with stop reason
  \<open>error\<close>.
\<close>

theorem retry_budget_429:
  assumes "apiKey c" and "\<not> aborted c"
    and "\<forall>n. \<exists>errText. responses c n = HttpError 429 errText"
  shows "fetches (streamKiro parse stringify randomUUID c) = maxRetries + 1
     \<and> maxRetries + 1 = 4
     \<and> pushed (streamKiro parse stringify randomUUID c) = [Error ErrorReason]
     \<and> stopReason (streamKiro parse stringify randomUUID c) = Some ErrorReason"
  using assms(1,2) attempts_429 [OF assms(3), of 0 maxRetries parse stringify randomUUID "new_parser [] []" 0]
  by (simp add: streamKiro_def failed_def maxRetries_def new_parser_def)

theorem retry_budget_429_witness:
  "fetches (streamKiro sample_parse sample_stringify sample_randomUUID (call_of False always_429)) = 4
   \<and> pushed (streamKiro sample_parse sample_stringify sample_randomUUID (call_of False always_429))
       = [Error ErrorReason]"
  using retry_budget_429 [of "call_of False always_429" sample_parse sample_stringify sample_randomUUID]
  by (simp add: call_of_def always_429_def maxRetries_def)

section \<open>The stop reason at finalize\<close>

text \<open>
  Claim C1 fails on the code. The stop reason is chosen from the number of assembled tool
  calls, before the calls with blank or unparseable input are skipped. A response with one
  tool call of empty input and a context-usage event ends with stop reason \<open>toolUse\<close> and
  a message without any tool call, where a stop reason taken from the surviving calls is
  \<open>stop\<close>. The two objects of that response classify as the tool use and the
  context-usage event the attempt is given.
\<close>

theorem stop_reason_of_dropped_tool_call:
  "parseKiroEvent sample_stringify
     [(''name'', JString ''bash''), (''toolUseId'', JString ''tc1''), (''input'', JString []),
      (''stop'', JBool True)]
     = Inr (Some (ToolUse (JString ''bash'') (JString ''tc1'') [] (Some (JBool True))))
   \<and> parseKiroEvent sample_stringify [(''contextUsagePercentage'', JNumber 10)]
     = Inr (Some (ContextUsage (JNumber 10)))
   \<and> streamKiro sample_parse sample_stringify sample_randomUUID (call_of False empty_tool_input)
     = \<lparr>message = [], pushed = [Start, Done ToolUseReason],
        stopReason = Some ToolUseReason, fetches = 1\<rparr>"
  by code_simp

end
